theory Spec2Isabelle
  imports Complex_Main
begin

section \<open>The CP-MDP solvers of \<^verbatim>\<open>pymdptoolbox/mdp.py\<close>\<close>

text \<open>
  The module holds a base class \<^verbatim>\<open>MDP\<close> and three solvers: policy iteration,
  value iteration and Gauss-Seidel value iteration. The embedding below follows the
  Python text method by method.

  Conventions of the embedding.
  \<^item> A numpy float is a \<^typ>\<open>real\<close>: arithmetic is exact, there is no rounding and
    no NaN. The one place where an IEEE infinity decides what the code does
    (the division by a zero span in \<^verbatim>\<open>_boundIter\<close>) is written out as branches.
  \<^item> A one-dimensional numpy array or a Python list is a HOL list; the per-action
    arrays \<^verbatim>\<open>succ_s\<close> and \<^verbatim>\<open>probability_s\<close> are lists of rows.
  \<^item> Every exception of the source is a value \<open>Inl e\<close> of the result type;
    a loop that the source may run forever is a partial function whose value
    \<open>None\<close> stands for not returning.
  \<^item> The attributes that no computation reads (\<^verbatim>\<open>shape\<close>, \<^verbatim>\<open>terminals\<close>,
    \<^verbatim>\<open>obstacles\<close>, \<^verbatim>\<open>verbose\<close>, \<^verbatim>\<open>time\<close>, the diagnostic lists
    \<^verbatim>\<open>iterations_list\<close> and \<^verbatim>\<open>v_list\<close>) are left out of the state.
\<close>

subsection \<open>Exceptions and numpy primitives\<close>

datatype error =
  AssertionError | TypeError | ValueError | IndexError
  | OverflowError | ZeroDivisionError

text \<open>Sequencing: an exception of the first computation ends the whole.\<close>

fun bindE :: "error + 'a \<Rightarrow> ('a \<Rightarrow> error + 'b) \<Rightarrow> error + 'b" where
  "bindE (Inl e) f = Inl e"
| "bindE (Inr x) f = f x"

text \<open>Indexing with a loop counter: \<^verbatim>\<open>xs[i]\<close> for \<open>i\<close> taken from a \<^verbatim>\<open>range\<close>.\<close>

definition idx :: "'a list \<Rightarrow> nat \<Rightarrow> error + 'a" where
  "idx xs i = (if i < length xs then Inr (xs ! i) else Inl IndexError)"

text \<open>Indexing with a stored integer: a negative index counts from the end.\<close>

definition np_index :: "'a list \<Rightarrow> int \<Rightarrow> error + 'a" where
  "np_index xs i =
     (if 0 \<le> i \<and> i < int (length xs) then Inr (xs ! nat i)
      else if i < 0 \<and> - int (length xs) \<le> i then Inr (xs ! nat (int (length xs) + i))
      else Inl IndexError)"

text \<open>A list comprehension whose body may raise: the first exception wins.\<close>

fun mapM :: "('a \<Rightarrow> error + 'b) \<Rightarrow> 'a list \<Rightarrow> error + 'b list" where
  "mapM f [] = Inr []"
| "mapM f (x # xs) =
     (case f x of Inl e \<Rightarrow> Inl e
      | Inr y \<Rightarrow> (case mapM f xs of Inl e \<Rightarrow> Inl e | Inr ys \<Rightarrow> Inr (y # ys)))"

text \<open>\<^verbatim>\<open>V[idxs]\<close>: indexing an array with an array of integers.\<close>

definition np_take :: "'a list \<Rightarrow> int list \<Rightarrow> error + 'a list" where
  "np_take xs is = mapM (np_index xs) is"

text \<open>\<^verbatim>\<open>np.dot\<close> of two vectors: the lengths must agree.\<close>

definition np_dot :: "real list \<Rightarrow> real list \<Rightarrow> error + real" where
  "np_dot ps vs =
     (if length ps = length vs then Inr (sum_list (map2 (*) ps vs)) else Inl ValueError)"

text \<open>\<^verbatim>\<open>max\<close> and \<^verbatim>\<open>min\<close> of an array; an empty array raises.\<close>

fun list_max :: "real list \<Rightarrow> real" where
  "list_max [] = 0"
| "list_max (x # xs) = foldl max x xs"

fun list_min :: "real list \<Rightarrow> real" where
  "list_min [] = 0"
| "list_min (x # xs) = foldl min x xs"

definition np_max :: "real list \<Rightarrow> error + real" where
  "np_max xs = (if xs = [] then Inl ValueError else Inr (list_max xs))"

text \<open>
  \<^verbatim>\<open>argmax\<close> scans from the left and keeps the first position of the largest
  value: a later element replaces the best one only when it is strictly larger.
\<close>

fun argmax_scan :: "real \<Rightarrow> nat \<Rightarrow> nat \<Rightarrow> real list \<Rightarrow> nat" where
  "argmax_scan best bi i [] = bi"
| "argmax_scan best bi i (x # xs) =
     (if best < x then argmax_scan x i (Suc i) xs else argmax_scan best bi (Suc i) xs)"

text \<open>
  An elementwise binary operation on two vectors with numpy's broadcasting: equal
  lengths, or one operand of length one; any other pair of shapes raises.
\<close>

definition np_broadcast2 :: "('a \<Rightarrow> 'b \<Rightarrow> 'c) \<Rightarrow> 'a list \<Rightarrow> 'b list \<Rightarrow> error + 'c list" where
  "np_broadcast2 f xs ys =
     (if length xs = length ys then Inr (map2 f xs ys)
      else if length xs = 1 then Inr (map (f (hd xs)) ys)
      else if length ys = 1 then Inr (map (\<lambda>x. f x (hd ys)) xs)
      else Inl ValueError)"

text \<open>\<^verbatim>\<open>getSpan(array) = array.max() - array.min()\<close>.\<close>

definition getSpan :: "real list \<Rightarrow> error + real" where
  "getSpan xs = (if xs = [] then Inl ValueError else Inr (list_max xs - list_min xs))"

text \<open>
  \<^verbatim>\<open>np.split(ary, n)\<close> with an integer \<open>n\<close>: \<open>n\<close> chunks of equal length.
  The source computes \<^verbatim>\<open>len(ary) % n\<close> first, which raises for \<open>n = 0\<close>.
\<close>

fun chunks :: "nat \<Rightarrow> nat \<Rightarrow> 'a list \<Rightarrow> 'a list list" where
  "chunks 0 k xs = []"
| "chunks (Suc n) k xs = take k xs # chunks n k (drop k xs)"

definition np_split :: "'a list \<Rightarrow> nat \<Rightarrow> error + 'a list list" where
  "np_split xs n =
     (if n = 0 then Inl ZeroDivisionError
      else if length xs mod n \<noteq> 0 then Inl ValueError
      else Inr (chunks n (length xs div n) xs))"

subsection \<open>The solver object\<close>

text \<open>
  \<^verbatim>\<open>S\<close> is what \<^verbatim>\<open>_computeDimensions\<close> returns, the length of the first action's
  flat successor array; \<^verbatim>\<open>states\<close> is the constructor argument of that name, the number
  of chunks each flat array is split into, which every loop over the states uses.
  \<^verbatim>\<open>V\<close> and \<^verbatim>\<open>policy\<close> are \<^verbatim>\<open>None\<close> after \<^verbatim>\<open>MDP.__init__\<close>; nothing reads them
  before a subclass assigns them, and the empty list stands for \<^verbatim>\<open>None\<close> here.
  A policy is an array of numbers (a caller may pass floats), so its entries are reals.
\<close>

record mdp =
  discount :: real
  max_iter :: int
  epsilon :: real
  S :: nat
  A :: nat
  states :: nat
  split_succ_s :: "int list list list"
  split_probability :: "real list list list"
  R :: "real list list"
  iter :: int
  V :: "real list"
  policy :: "real list"
  thresh :: real

subsection \<open>\<^verbatim>\<open>MDP._bellmanOperator\<close>\<close>

text \<open>
  The body of the comprehension at one action and one state,
  \<^verbatim>\<open>R[a][s1] + discount * np.dot(split_probability[a][s1], V[split_succ_s[a][s1]])\<close>,
  with the subscripts evaluated in the order Python evaluates them.
\<close>

definition q_value :: "mdp \<Rightarrow> real list \<Rightarrow> nat \<Rightarrow> nat \<Rightarrow> error + real" where
  "q_value st v a s1 =
     bindE (idx (R st) a) (\<lambda>Ra.
     bindE (idx Ra s1) (\<lambda>r.
     bindE (idx (split_probability st) a) (\<lambda>Pa.
     bindE (idx Pa s1) (\<lambda>p.
     bindE (idx (split_succ_s st) a) (\<lambda>Sa.
     bindE (idx Sa s1) (\<lambda>sc.
     bindE (np_take v sc) (\<lambda>vs.
     bindE (np_dot p vs) (\<lambda>d. Inr (r + discount st * d)))))))))"

text \<open>Column \<open>s\<close> of the table \<open>Q\<close>, whose rows are the actions.\<close>

definition column :: "real list list \<Rightarrow> nat \<Rightarrow> real list" where
  "column Q s = map (\<lambda>row. row ! s) Q"

text \<open>
  The operator itself. A value function passed by the caller must have shape
  \<^verbatim>\<open>(states,)\<close>; without one the stored \<^verbatim>\<open>self.V\<close> is used unchecked. The table
  \<open>Q\<close> has one row per action, each row a comprehension over \<^verbatim>\<open>range(states)\<close>;
  \<^verbatim>\<open>argmax\<close> and \<^verbatim>\<open>max\<close> along axis 0 raise on a table with no row.
\<close>

definition bellmanOperator :: "mdp \<Rightarrow> real list option \<Rightarrow> error + (real list \<times> real list)" where
  "bellmanOperator st Vopt =
     (if (case Vopt of None \<Rightarrow> False | Some v \<Rightarrow> length v \<noteq> states st)
      then Inl AssertionError
      else
        let v = (case Vopt of None \<Rightarrow> V st | Some v \<Rightarrow> v) in
        case mapM (\<lambda>a. mapM (\<lambda>s1. q_value st v a s1) [0..<states st]) [0..<A st] of
          Inl e \<Rightarrow> Inl e
        | Inr Q \<Rightarrow>
            if Q = [] then Inl ValueError
            else Inr (map (\<lambda>s. real (argmax_scan (hd (column Q s)) 0 1 (tl (column Q s))))
                        [0..<states st],
                      map (\<lambda>s. list_max (column Q s)) [0..<states st]))"

subsection \<open>\<^verbatim>\<open>MDP.__init__\<close> and the reward\<close>

text \<open>
  \<^verbatim>\<open>_computeDimensions\<close> for a two-dimensional successor array (or a list of flat
  arrays): \<open>A\<close> is the number of rows and \<open>S\<close> the length of row 0, which does not
  exist when there is no row.
\<close>

definition computeDimensions :: "int list list \<Rightarrow> error + (nat \<times> nat)" where
  "computeDimensions transition =
     (case transition of [] \<Rightarrow> Inl IndexError | row # _ \<Rightarrow> Inr (length row, length transition))"

text \<open>
  \<^verbatim>\<open>_computeVectorReward\<close> for a dense vector: \<^verbatim>\<open>reshape(self.states)\<close> raises
  unless the vector has \<^verbatim>\<open>states\<close> entries; the result holds the vector once per action.
\<close>

definition computeVectorReward :: "nat \<Rightarrow> nat \<Rightarrow> real list \<Rightarrow> error + real list list" where
  "computeVectorReward nA nstates reward =
     (if length reward = nstates then Inr (replicate nA reward) else Inl ValueError)"

text \<open>
  \<^verbatim>\<open>_computeReward\<close> on a dense one-dimensional reward, the only form of reward of
  this embedding. The \<^verbatim>\<open>ValueError\<close> of a failed reshape is caught; the handler
  then either maps \<^verbatim>\<open>_computeMatrixReward\<close> over the scalars of the vector, where
  \<^verbatim>\<open>sum(1)\<close> of a one-dimensional product raises, or reshapes again and raises again.
\<close>

definition computeReward :: "nat \<Rightarrow> nat \<Rightarrow> real list \<Rightarrow> error + real list list" where
  "computeReward nA nstates reward =
     (case computeVectorReward nA nstates reward of
        Inr r \<Rightarrow> Inr r
      | Inl e \<Rightarrow>
          (if length reward = nA then Inl ValueError
           else computeVectorReward nA nstates reward))"

text \<open>One turn of the loop that splits the flat arrays of action \<open>aa\<close>.\<close>

definition split_action ::
  "int list list \<Rightarrow> real list list \<Rightarrow> nat \<Rightarrow> nat \<Rightarrow> error + (int list list \<times> real list list)" where
  "split_action succ_s probability_s nstates aa =
     bindE (idx succ_s aa) (\<lambda>row.
     bindE (np_split row nstates) (\<lambda>sc.
     bindE (idx probability_s aa) (\<lambda>prow.
     bindE (np_split prow nstates) (\<lambda>pc. Inr (sc, pc)))))"

text \<open>
  The base constructor, with \<^verbatim>\<open>discount\<close>, \<^verbatim>\<open>max_iter\<close> and \<^verbatim>\<open>epsilon\<close> given
  (none of them \<^verbatim>\<open>None\<close>). The attribute \<^verbatim>\<open>thresh\<close> does not exist yet; the
  value-iteration constructors set it and policy iteration never reads it.
\<close>

definition MDP_init ::
  "int list list \<Rightarrow> real list list \<Rightarrow> real list \<Rightarrow> nat \<Rightarrow> real \<Rightarrow> real \<Rightarrow> int \<Rightarrow> error + mdp" where
  "MDP_init succ_s probability_s Rin nstates disc eps maxit =
     (if \<not> (0 < disc \<and> disc \<le> 1) then Inl AssertionError
      else if \<not> 0 < maxit then Inl AssertionError
      else if \<not> 0 < eps then Inl AssertionError
      else
        bindE (computeDimensions succ_s) (\<lambda>dims.
        bindE (computeReward (snd dims) nstates Rin) (\<lambda>R'.
        bindE (mapM (split_action succ_s probability_s nstates) [0..<snd dims]) (\<lambda>splits.
          Inr \<lparr>discount = disc, max_iter = maxit, epsilon = eps,
               S = fst dims, A = snd dims, states = nstates,
               split_succ_s = map fst splits, split_probability = map snd splits,
               R = R', iter = 0, V = [], policy = [], thresh = 0\<rparr>))))"

subsection \<open>Value iteration\<close>

text \<open>
  \<^verbatim>\<open>CpMdpValueIteration.__init__\<close> takes
  \<^verbatim>\<open>(transitions, reward, shape, succ_s, discount, epsilon, max_iter, initial_value)\<close>
  and at once calls \<^verbatim>\<open>MDP.__init__\<close> with seven positional arguments, where
  \<^verbatim>\<open>MDP.__init__\<close> has ten parameters without default. Python raises
  \<^verbatim>\<open>TypeError\<close> at that call, before any statement of either constructor runs.
\<close>

definition VI_init ::
  "'t \<Rightarrow> 'r \<Rightarrow> 'sh \<Rightarrow> int list list \<Rightarrow> real \<Rightarrow> real \<Rightarrow> int \<Rightarrow> real list option \<Rightarrow> error + mdp" where
  "VI_init transitions reward shape succ_s disc eps maxit initial_value = Inl TypeError"

text \<open>
  \<^verbatim>\<open>_boundIter\<close>. \<open>k = 1 - h.sum()\<close> for a zero vector \<open>h\<close>, so \<open>k = 1\<close>. The
  quotient by \<open>span\<close> is a numpy division: for \<open>span = 0\<close> it yields an infinity (or
  NaN) and a warning, and the exception comes from \<^verbatim>\<open>math.log\<close> of a negative
  infinity, from the Python division by \<^verbatim>\<open>math.log(1)\<close>, or from
  \<^verbatim>\<open>math.ceil\<close> of an infinity or NaN.
\<close>

definition boundIter :: "mdp \<Rightarrow> real \<Rightarrow> error + mdp" where
  "boundIter st eps =
     bindE (bellmanOperator st None) (\<lambda>pv.
     bindE (np_broadcast2 (-) (snd pv) (V st)) (\<lambda>d.
     bindE (getSpan d) (\<lambda>span.
       if discount st = 0 then Inl ZeroDivisionError
       else
         let a = eps * (1 - discount st) / discount st; k = 1 in
         if span = 0 then
           (if a < 0 then Inl ValueError
            else if discount st * k \<le> 0 then Inl ValueError
            else if discount st * k = 1 then Inl ZeroDivisionError
            else if a = 0 then Inl ValueError
            else Inl OverflowError)
         else if a / span \<le> 0 then Inl ValueError
         else if discount st * k \<le> 0 then Inl ValueError
         else if discount st * k = 1 then Inl ZeroDivisionError
         else Inr (st\<lparr>max_iter := \<lceil>ln (a / span) / ln (discount st * k)\<rceil>\<rparr>))))"

text \<open>One turn of the loop of \<^verbatim>\<open>CpMdpValueIteration.run\<close>, up to the variation.\<close>

definition vi_step :: "mdp \<Rightarrow> error + (real list \<times> real list \<times> real)" where
  "vi_step st =
     bindE (bellmanOperator st None) (\<lambda>pv.
     bindE (np_broadcast2 (-) (snd pv) (V st)) (\<lambda>d.
     bindE (getSpan d) (\<lambda>variation. Inr (fst pv, snd pv, variation))))"

partial_function (option) vi_loop :: "mdp \<Rightarrow> (error + mdp) option" where
  "vi_loop st =
     (case vi_step (st\<lparr>iter := iter st + 1\<rparr>) of
        Inl e \<Rightarrow> Some (Inl e)
      | Inr r \<Rightarrow>
          (if snd (snd r) < thresh st then
             Some (Inr (st\<lparr>iter := iter st + 1, policy := fst r, V := fst (snd r)\<rparr>))
           else if iter st + 1 = max_iter st then
             Some (Inr (st\<lparr>iter := iter st + 1, policy := fst r, V := fst (snd r)\<rparr>))
           else vi_loop (st\<lparr>iter := iter st + 1, policy := fst r, V := fst (snd r)\<rparr>)))"

definition VI_run :: "mdp \<Rightarrow> (error + mdp) option" where
  "VI_run st = vi_loop st"

subsection \<open>Gauss-Seidel value iteration\<close>

text \<open>
  \<^verbatim>\<open>CpMdpValueIterationGS.__init__\<close>. The initial value is either the default
  \<^verbatim>\<open>0\<close> (here \<open>None\<close>) or a Python list of floats.
\<close>

definition GS_init ::
  "int list list \<Rightarrow> real list list \<Rightarrow> real list \<Rightarrow> nat \<Rightarrow> real \<Rightarrow> real \<Rightarrow> int \<Rightarrow>
   real list option \<Rightarrow> error + mdp" where
  "GS_init succ_s probability_s Rin nstates disc eps maxit initial_value =
     bindE (MDP_init succ_s probability_s Rin nstates disc eps maxit) (\<lambda>st0.
     bindE (case initial_value of
              None \<Rightarrow> Inr (replicate nstates 0)
            | Some iv \<Rightarrow> if length iv \<noteq> nstates then Inl ValueError else Inr iv) (\<lambda>v0.
       if discount st0 < 1 then
         bindE (boundIter (st0\<lparr>V := v0\<rparr>) eps) (\<lambda>st2.
           Inr (st2\<lparr>thresh := eps * (1 - discount st2) / discount st2\<rparr>))
       else Inr (st0\<lparr>V := v0, thresh := eps\<rparr>)))"

text \<open>
  The sweep over the states: \<^verbatim>\<open>self.V[s1] = max(Q)\<close> overwrites the entry at once,
  so the next state reads it.
\<close>

fun gs_sweep :: "mdp \<Rightarrow> real list \<Rightarrow> nat list \<Rightarrow> error + real list" where
  "gs_sweep st v [] = Inr v"
| "gs_sweep st v (s1 # ss) =
     (case mapM (\<lambda>a. q_value st v a s1) [0..<A st] of
        Inl e \<Rightarrow> Inl e
      | Inr Q \<Rightarrow>
          if Q = [] then Inl ValueError
          else if s1 < length v then gs_sweep st (v[s1 := list_max Q]) ss
          else Inl IndexError)"

definition gs_step :: "mdp \<Rightarrow> error + (real list \<times> real)" where
  "gs_step st =
     bindE (idx (split_succ_s st) 0) (\<lambda>rows.
     bindE (gs_sweep st (V st) [0..<length rows]) (\<lambda>v'.
     bindE (np_broadcast2 (-) v' (V st)) (\<lambda>d.
     bindE (getSpan d) (\<lambda>variation. Inr (v', variation)))))"

partial_function (option) gs_loop :: "mdp \<Rightarrow> (error + mdp) option" where
  "gs_loop st =
     (case gs_step (st\<lparr>iter := iter st + 1\<rparr>) of
        Inl e \<Rightarrow> Some (Inl e)
      | Inr r \<Rightarrow>
          (if snd r < thresh st then Some (Inr (st\<lparr>iter := iter st + 1, V := fst r\<rparr>))
           else if iter st + 1 = max_iter st then Some (Inr (st\<lparr>iter := iter st + 1, V := fst r\<rparr>))
           else gs_loop (st\<lparr>iter := iter st + 1, V := fst r\<rparr>)))"

text \<open>
  The pass after the loop: for each state the table row \<open>Q\<close> over the actions, then
  \<^verbatim>\<open>self.V[s1] = Q.max()\<close> and \<^verbatim>\<open>self.policy.append(int(Q.argmax()))\<close>.
\<close>

fun gs_final :: "mdp \<Rightarrow> real list \<Rightarrow> real list \<Rightarrow> nat list \<Rightarrow> error + (real list \<times> real list)" where
  "gs_final st v pol [] = Inr (v, pol)"
| "gs_final st v pol (s1 # ss) =
     (case mapM (\<lambda>a. q_value st v a s1) [0..<A st] of
        Inl e \<Rightarrow> Inl e
      | Inr Q \<Rightarrow>
          if Q = [] then Inl ValueError
          else if s1 < length v then
            gs_final st (v[s1 := list_max Q]) (pol @ [real (argmax_scan (hd Q) 0 1 (tl Q))]) ss
          else Inl IndexError)"

definition gs_finish :: "mdp \<Rightarrow> error + mdp" where
  "gs_finish st =
     bindE (idx (split_succ_s st) 0) (\<lambda>rows.
     bindE (gs_final st (V st) [] [0..<length rows]) (\<lambda>vp.
       Inr (st\<lparr>V := fst vp, policy := snd vp\<rparr>)))"

definition GS_run :: "mdp \<Rightarrow> (error + mdp) option" where
  "GS_run st =
     (case gs_loop st of
        None \<Rightarrow> None
      | Some (Inl e) \<Rightarrow> Some (Inl e)
      | Some (Inr st') \<Rightarrow> Some (gs_finish st'))"

subsection \<open>Policy iteration\<close>

text \<open>
  \<^verbatim>\<open>CpMdpPolicyIteration.__init__\<close>. A supplied \<^verbatim>\<open>policy0\<close> is a vector of
  numbers; \<^verbatim>\<open>np.mod(policy0, 1)\<close> is the fractional part. The three assertions
  compare with \<^verbatim>\<open>self.S\<close>.
\<close>

definition check_policy0 :: "nat \<Rightarrow> real list \<Rightarrow> error + real list" where
  "check_policy0 nS p0 =
     (if length p0 \<noteq> nS then Inl AssertionError
      else if list_ex (\<lambda>x. x - of_int \<lfloor>x\<rfloor> \<noteq> 0) p0 then Inl AssertionError
      else if \<not> list_all (\<lambda>x. 0 \<le> x) p0 then Inl AssertionError
      else if \<not> list_all (\<lambda>x. x < real nS) p0 then Inl AssertionError
      else Inr p0)"

definition PI_init ::
  "int list list \<Rightarrow> real list list \<Rightarrow> real list \<Rightarrow> nat \<Rightarrow> real \<Rightarrow> real \<Rightarrow>
   real list option \<Rightarrow> int \<Rightarrow> error + mdp" where
  "PI_init succ_s probability_s Rin nstates disc eps policy0 maxit =
     bindE (MDP_init succ_s probability_s Rin nstates disc eps maxit) (\<lambda>st0.
     bindE (case policy0 of
              None \<Rightarrow> bindE (bellmanOperator st0 (Some (replicate nstates 0))) (\<lambda>pv. Inr (fst pv))
            | Some p0 \<Rightarrow> check_policy0 (S st0) p0) (\<lambda>pol.
       Inr (st0\<lparr>policy := pol, V := replicate nstates 0\<rparr>)))"

text \<open>
  \<^verbatim>\<open>np.asarray\<close> of the list of per-action lists of chunks is a three-dimensional
  array only when all actions have the same number of chunks and all chunks the same
  length; a ragged nesting raises (numpy 1.24 and later).
\<close>

definition rectangular3 :: "'a list list list \<Rightarrow> bool" where
  "rectangular3 xs =
     (list_all (\<lambda>m. length m = length (hd xs)) xs \<and>
      list_all (\<lambda>r. length r = length (hd (concat xs))) (concat xs))"

text \<open>
  \<^verbatim>\<open>target[ind] = rows\<close> for a two-dimensional target whose rows have \<open>w\<close> entries:
  the rows are broadcast to width \<open>w\<close> (equal width, or width one repeated), which
  raises \<^verbatim>\<open>ValueError\<close> for any other width; then the positions are checked.
\<close>

definition fit_row :: "nat \<Rightarrow> 'a list \<Rightarrow> error + 'a list" where
  "fit_row w row =
     (if length row = w then Inr row
      else if length row = 1 then Inr (replicate w (hd row))
      else Inl ValueError)"

fun put_all :: "'a list \<Rightarrow> nat list \<Rightarrow> 'a list \<Rightarrow> 'a list" where
  "put_all target (i # is) (x # xs) = put_all (target[i := x]) is xs"
| "put_all target _ _ = target"

definition assign_vals :: "'a list \<Rightarrow> nat list \<Rightarrow> 'a list \<Rightarrow> error + 'a list" where
  "assign_vals target ind vals =
     (if list_all (\<lambda>i. i < length target) ind then Inr (put_all target ind vals)
      else Inl IndexError)"

definition assign_rows :: "nat \<Rightarrow> 'a list list \<Rightarrow> nat list \<Rightarrow> 'a list list \<Rightarrow> error + 'a list list" where
  "assign_rows w target ind rows =
     bindE (mapM (fit_row w) rows) (\<lambda>rows'. assign_vals target ind rows')"

text \<open>
  The loop of \<^verbatim>\<open>_computePpolicyPRpolicy\<close> over the actions. \<open>ind\<close> holds the
  positions of the policy that equal the action; an action that no position uses is
  skipped. The accumulator is \<open>(Rpolicy, split_Ppolicy_s, split_Ppolicy_p)\<close>.
\<close>

fun policy_rows ::
  "mdp \<Rightarrow> nat list \<Rightarrow> real list \<times> int list list \<times> real list list \<Rightarrow>
   error + (real list \<times> int list list \<times> real list list)" where
  "policy_rows st [] acc = Inr acc"
| "policy_rows st (aa # as) acc =
     (let ind = filter (\<lambda>i. policy st ! i = real aa) [0..<length (policy st)] in
      if ind = [] then policy_rows st as acc
      else
        case
          bindE (idx (split_succ_s st) aa) (\<lambda>Sa.
          bindE (mapM (idx Sa) ind) (\<lambda>rows.
          bindE (assign_rows (A st - 1) (fst (snd acc)) ind rows) (\<lambda>Ps.
          bindE (idx (split_probability st) aa) (\<lambda>Pa.
          bindE (mapM (idx Pa) ind) (\<lambda>prows.
          bindE (assign_rows (A st - 1) (snd (snd acc)) ind prows) (\<lambda>Pp.
          bindE (idx (R st) aa) (\<lambda>Ra.
          bindE (mapM (idx Ra) ind) (\<lambda>rs.
          bindE (assign_vals (fst acc) ind rs) (\<lambda>Rp. Inr (Rp, Ps, Pp))))))))))
        of Inl e \<Rightarrow> Inl e
         | Inr acc' \<Rightarrow> policy_rows st as acc')"

text \<open>
  \<^verbatim>\<open>_computePpolicyPRpolicy\<close>: zero arrays of \<^verbatim>\<open>states * (A - 1)\<close> entries
  (a negative size raises), split into \<^verbatim>\<open>states\<close> chunks (which divides by
  \<^verbatim>\<open>states\<close>), the two conversions to arrays, then the loop.
\<close>

definition computePpolicyPRpolicy ::
  "mdp \<Rightarrow> error + (real list \<times> int list list \<times> real list list)" where
  "computePpolicyPRpolicy st =
     (if A st = 0 \<and> states st \<noteq> 0 then Inl ValueError
      else if states st = 0 then Inl ZeroDivisionError
      else if \<not> rectangular3 (split_succ_s st) then Inl ValueError
      else if \<not> rectangular3 (split_probability st) then Inl ValueError
      else policy_rows st [0..<A st]
             (replicate (states st) 0,
              replicate (states st) (replicate (A st - 1) 0),
              replicate (states st) (replicate (A st - 1) 0)))"

text \<open>
  One turn of the loop of \<^verbatim>\<open>_evalPolicyIterative\<close>: the comprehension over the
  states reads only \<open>Vprev\<close>, then \<^verbatim>\<open>variation = np.absolute(policy_V - Vprev).max()\<close>.
\<close>

definition eval_backup ::
  "mdp \<Rightarrow> real list \<Rightarrow> int list list \<Rightarrow> real list list \<Rightarrow> real list \<Rightarrow> error + real list" where
  "eval_backup st policy_R succ prob Vprev =
     mapM (\<lambda>s1.
       bindE (idx policy_R s1) (\<lambda>r.
       bindE (idx prob s1) (\<lambda>p.
       bindE (idx succ s1) (\<lambda>sc.
       bindE (np_take Vprev sc) (\<lambda>vs.
       bindE (np_dot p vs) (\<lambda>d. Inr (r + discount st * d)))))))
       [0..<states st]"

definition abs_variation :: "real list \<Rightarrow> real list \<Rightarrow> error + real" where
  "abs_variation vnew vprev =
     bindE (np_broadcast2 (-) vnew vprev) (\<lambda>d. np_max (map abs d))"

definition eval_step ::
  "mdp \<Rightarrow> real list \<Rightarrow> int list list \<Rightarrow> real list list \<Rightarrow> real list \<Rightarrow>
   error + (real list \<times> real)" where
  "eval_step st policy_R succ prob Vprev =
     bindE (eval_backup st policy_R succ prob Vprev) (\<lambda>pV.
     bindE (abs_variation pV Vprev) (\<lambda>variation. Inr (pV, variation)))"

text \<open>
  The loop, with the counter \<open>itr\<close> and the current \<open>policy_V\<close> as arguments; it
  returns both. The threshold is computed with a Python division by the discount.
\<close>

partial_function (option) eval_loop ::
  "mdp \<Rightarrow> real list \<Rightarrow> int list list \<Rightarrow> real list list \<Rightarrow> real \<Rightarrow> int \<Rightarrow> int \<Rightarrow> real list \<Rightarrow>
   (error + (int \<times> real list)) option" where
  "eval_loop st policy_R succ prob eps maxit itr policy_V =
     (case eval_step st policy_R succ prob policy_V of
        Inl e \<Rightarrow> Some (Inl e)
      | Inr r \<Rightarrow>
          (if discount st = 0 then Some (Inl ZeroDivisionError)
           else if snd r < ((1 - discount st) / discount st) * eps then Some (Inr (itr + 1, fst r))
           else if itr + 1 = maxit then Some (Inr (itr + 1, fst r))
           else eval_loop st policy_R succ prob eps maxit (itr + 1) (fst r)))"

text \<open>
  \<^verbatim>\<open>_evalPolicyIterative(V0, epsilon, max_iter)\<close>; \<open>None\<close> is the default
  \<^verbatim>\<open>V0 = 0\<close>. It stores the last \<open>policy_V\<close> in \<^verbatim>\<open>self.V\<close>.
\<close>

definition eval_start ::
  "mdp \<Rightarrow> real list option \<Rightarrow> error + (real list \<times> real list \<times> int list list \<times> real list list)" where
  "eval_start st V0 =
     bindE (case V0 of
              None \<Rightarrow> Inr (replicate (states st) 0)
            | Some v \<Rightarrow> if length v = states st then Inr v else Inl AssertionError) (\<lambda>pV.
     bindE (computePpolicyPRpolicy st) (\<lambda>rsp. Inr (pV, rsp)))"

definition evalPolicyIterative :: "mdp \<Rightarrow> real list option \<Rightarrow> real \<Rightarrow> int \<Rightarrow> (error + mdp) option" where
  "evalPolicyIterative st V0 eps maxit =
     (case eval_start st V0 of
        Inl e \<Rightarrow> Some (Inl e)
      | Inr (pV, Rp, Ps, Pp) \<Rightarrow>
          (case eval_loop st Rp Ps Pp eps maxit 0 pV of
             None \<Rightarrow> None
           | Some (Inl e) \<Rightarrow> Some (Inl e)
           | Some (Inr r) \<Rightarrow> Some (Inr (st\<lparr>V := snd r\<rparr>))))"

text \<open>
  \<^verbatim>\<open>CpMdpPolicyIteration.run\<close>. The evaluation is called without arguments, so
  with \<^verbatim>\<open>V0 = 0\<close>, \<^verbatim>\<open>epsilon = 0.0001\<close> and \<^verbatim>\<open>max_iter = 100\<close>.
  \<^verbatim>\<open>n_different\<close> counts the positions where the two policies differ.
\<close>

definition improve :: "mdp \<Rightarrow> error + (real list \<times> nat)" where
  "improve st =
     bindE (bellmanOperator st None) (\<lambda>pv.
     bindE (np_broadcast2 (\<lambda>x y. x \<noteq> y) (fst pv) (policy st)) (\<lambda>ne.
       Inr (fst pv, length (filter (\<lambda>b. b) ne))))"

partial_function (option) pi_loop :: "mdp \<Rightarrow> (error + mdp) option" where
  "pi_loop st =
     (case evalPolicyIterative (st\<lparr>iter := iter st + 1\<rparr>) None (1 / 10000) 100 of
        None \<Rightarrow> None
      | Some (Inl e) \<Rightarrow> Some (Inl e)
      | Some (Inr st2) \<Rightarrow>
          (case improve st2 of
             Inl e \<Rightarrow> Some (Inl e)
           | Inr r \<Rightarrow>
               (if snd r = 0 then Some (Inr st2)
                else if iter st2 = max_iter st2 then Some (Inr st2)
                else pi_loop (st2\<lparr>policy := fst r\<rparr>))))"

definition PI_run :: "mdp \<Rightarrow> (error + mdp) option" where
  "PI_run st = pi_loop st"

subsection \<open>The quantities of the specification\<close>

text \<open>
  The action value as the specification writes it:
  \<open>Q(s,a) = R[a][s] + \<gamma> \<cdot> \<Sum>\<^sub>i prob[a][s][i] \<cdot> V[succ[a][s][i]]\<close>.
\<close>

definition Qsa :: "mdp \<Rightarrow> real list \<Rightarrow> nat \<Rightarrow> nat \<Rightarrow> real" where
  "Qsa st v s a =
     R st ! a ! s +
     discount st *
       (\<Sum>i<length (split_succ_s st ! a ! s).
          split_probability st ! a ! s ! i * v ! nat (split_succ_s st ! a ! s ! i))"

text \<open>
  A well-formed solver object: at least one action, one reward vector, one list of
  successor chunks and one list of probability chunks per action, each with one entry
  per state; parallel chunks of equal length; successors that are state indices.
\<close>

definition solver_ok :: "mdp \<Rightarrow> bool" where
  "solver_ok st \<longleftrightarrow>
     0 < A st \<and> length (R st) = A st \<and> length (split_probability st) = A st \<and>
     length (split_succ_s st) = A st \<and>
     (\<forall>a<A st.
        length (R st ! a) = states st \<and> length (split_probability st ! a) = states st \<and>
        length (split_succ_s st ! a) = states st \<and>
        (\<forall>s<states st.
           length (split_probability st ! a ! s) = length (split_succ_s st ! a ! s) \<and>
           (\<forall>i\<in>set (split_succ_s st ! a ! s). 0 \<le> i \<and> i < int (states st))))"

text \<open>
  The value function after \<open>k\<close> turns of the evaluation loop from \<open>v\<close>, and the test
  \<^verbatim>\<open>variation < ((1 - discount) / discount) * epsilon\<close> as it stands at turn \<open>k\<close>
  (counted from 1): it compares the backup of turn \<open>k\<close> with its predecessor.
\<close>

fun backups ::
  "mdp \<Rightarrow> real list \<Rightarrow> int list list \<Rightarrow> real list list \<Rightarrow> nat \<Rightarrow> real list \<Rightarrow> error + real list" where
  "backups st policy_R succ prob 0 v = Inr v"
| "backups st policy_R succ prob (Suc k) v =
     bindE (eval_backup st policy_R succ prob v) (backups st policy_R succ prob k)"

definition stop_test ::
  "mdp \<Rightarrow> real list \<Rightarrow> int list list \<Rightarrow> real list list \<Rightarrow> real \<Rightarrow> real list \<Rightarrow> nat \<Rightarrow> bool" where
  "stop_test st policy_R succ prob eps v k =
     (case backups st policy_R succ prob (k - 1) v of
        Inl e \<Rightarrow> False
      | Inr vp \<Rightarrow>
          (case eval_step st policy_R succ prob vp of
             Inl e \<Rightarrow> False
           | Inr r \<Rightarrow> snd r < ((1 - discount st) / discount st) * eps))"

text \<open>
  The arrays of \<^verbatim>\<open>_computePpolicyPRpolicy\<close> with \<open>n\<close> rows of width \<open>w\<close>, and with
  successor entries that are state indices.
\<close>

definition acc_shape :: "nat \<Rightarrow> nat \<Rightarrow> real list \<times> int list list \<times> real list list \<Rightarrow> bool" where
  "acc_shape n w acc \<longleftrightarrow>
     length (fst acc) = n \<and> length (fst (snd acc)) = n \<and> length (snd (snd acc)) = n \<and>
     (\<forall>r\<in>set (fst (snd acc)). length r = w) \<and> (\<forall>r\<in>set (snd (snd acc)). length r = w)"

definition acc_ok :: "nat \<Rightarrow> nat \<Rightarrow> real list \<times> int list list \<times> real list list \<Rightarrow> bool" where
  "acc_ok n w acc \<longleftrightarrow>
     acc_shape n w acc \<and> (\<forall>r\<in>set (fst (snd acc)). \<forall>i\<in>set r. 0 \<le> i \<and> i < int n)"

text \<open>
  What an assignment into a target whose rows have \<open>w\<close> entries stores for a row: the
  row itself when it has \<open>w\<close> entries, its first entry \<open>w\<close> times otherwise.
\<close>

definition stored_row :: "nat \<Rightarrow> 'a list \<Rightarrow> 'a list" where
  "stored_row w row = (if length row = w then row else replicate w (row ! 0))"

text \<open>Some position of the policy holds the action \<open>aa\<close>.\<close>

definition uses_action :: "mdp \<Rightarrow> nat \<Rightarrow> bool" where
  "uses_action st aa \<longleftrightarrow> filter (\<lambda>i. policy st ! i = real aa) [0..<length (policy st)] \<noteq> []"

text \<open>
  A well-formed policy-iteration object whose successor chunks all have \<open>B\<close> entries:
  at least one state, a positive discount, and a policy with one action per state.
\<close>

definition pi_ok :: "nat \<Rightarrow> mdp \<Rightarrow> bool" where
  "pi_ok B st \<longleftrightarrow>
     solver_ok st \<and> 0 < states st \<and> 0 < discount st \<and>
     (\<forall>a<A st. \<forall>s<states st. length (split_succ_s st ! a ! s) = B) \<and>
     length (policy st) = states st \<and> list_all (\<lambda>p. \<exists>a<A st. p = real a) (policy st)"

text \<open>
  Valid input tables for \<open>n\<close> states with \<open>B\<close> successors per state and action: one
  probability row per successor row, every row of length \<open>n \<cdot> B\<close>, every successor a
  state index.
\<close>

definition valid_tables :: "nat \<Rightarrow> nat \<Rightarrow> int list list \<Rightarrow> real list list \<Rightarrow> bool" where
  "valid_tables n B succ_s probability_s \<longleftrightarrow>
     length probability_s = length succ_s \<and>
     list_all (\<lambda>row. length row = n * B \<and> list_all (\<lambda>i. 0 \<le> i \<and> i < int n) row) succ_s \<and>
     list_all (\<lambda>row. length row = n * B) probability_s"

text \<open>
  The output of a run: a policy and a value function with one entry per state, the
  policy entries in \<open>[0, A)\<close>.
\<close>

definition output_ok :: "mdp \<Rightarrow> bool" where
  "output_ok st \<longleftrightarrow>
     length (policy st) = states st \<and> length (V st) = states st \<and>
     list_all (\<lambda>p. 0 \<le> p \<and> p < real (A st)) (policy st)"

text \<open>
  A policy entry \<open>p\<close> is greedy at state \<open>s\<close> for the value function \<open>v\<close> when it is
  the first action that attains the maximum of the action values.
\<close>

definition greedy_at :: "mdp \<Rightarrow> real list \<Rightarrow> nat \<Rightarrow> real \<Rightarrow> bool" where
  "greedy_at st v s p \<longleftrightarrow>
     (\<exists>a<A st. p = real a \<and> Qsa st v s a = Max (Qsa st v s ` {..<A st}) \<and>
                (\<forall>b<a. Qsa st v s b < Qsa st v s a))"

text \<open>
  The candidate policy of an improvement step: one entry per state, each the first
  greedy action for the stored value function. \<open>n_different\<close> counts the states at
  which two policies differ.
\<close>

definition candidate :: "mdp \<Rightarrow> real list \<Rightarrow> bool" where
  "candidate st pn \<longleftrightarrow>
     length pn = states st \<and> (\<forall>s<states st. greedy_at st (V st) s (pn ! s))"

definition n_different :: "real list \<Rightarrow> real list \<Rightarrow> nat" where
  "n_different pn pol = length (filter (\<lambda>s. pn ! s \<noteq> pol ! s) [0..<length pn])"

text \<open>Two solver objects that differ at most in the iteration count, \<open>V\<close> and the policy.\<close>

definition same_model :: "mdp \<Rightarrow> mdp \<Rightarrow> bool" where
  "same_model st st' \<longleftrightarrow>
     discount st' = discount st \<and> max_iter st' = max_iter st \<and> epsilon st' = epsilon st \<and>
     S st' = S st \<and> A st' = A st \<and> states st' = states st \<and>
     split_succ_s st' = split_succ_s st \<and> split_probability st' = split_probability st \<and>
     R st' = R st \<and> thresh st' = thresh st"

text \<open>The loops unfold by their defining equations.\<close>

declare vi_loop.simps [code]
declare gs_loop.simps [code]
declare eval_loop.simps [code]
declare pi_loop.simps [code]

subsection \<open>Example inputs\<close>

text \<open>
  Three states and two actions, one successor per state and action: state 0 loops on
  itself under both actions, state 1 moves to state 0 or to state 2, state 2 loops on
  itself. The value function is the zero vector.
\<close>

definition ex_chain :: mdp where
  "ex_chain = \<lparr>discount = 1, max_iter = 1, epsilon = 1 / 100, S = 3, A = 2,
        states = 3, split_succ_s = [[[0], [0], [2]], [[0], [2], [2]]],
        split_probability = [[[1], [1], [1]], [[1], [1], [1]]],
        R = [[1, 0, 3 / 2], [1, 0, 3 / 2]], iter = 0, V = [0, 0, 0], policy = [],
        thresh = 1 / 100\<rparr>"

text \<open>The same model with discount one half, as the Gauss-Seidel constructor leaves it.\<close>

definition ex_chain_half :: mdp where
  "ex_chain_half = \<lparr>discount = 1 / 2, max_iter = 8, epsilon = 1 / 100, S = 3, A = 2,
        states = 3, split_succ_s = [[[0], [0], [2]], [[0], [2], [2]]],
        split_probability = [[[1], [1], [1]], [[1], [1], [1]]],
        R = [[1, 0, 3 / 2], [1, 0, 3 / 2]], iter = 0, V = [0, 0, 0], policy = [],
        thresh = 1 / 100\<rparr>"

text \<open>
  One state and one action, a self-loop with probability 1, reward 5 and discount one
  half, as the policy-iteration constructor leaves it.
\<close>

definition ex_single :: mdp where
  "ex_single = \<lparr>discount = 1 / 2, max_iter = 10, epsilon = 1 / 100, S = 1, A = 1,
        states = 1, split_succ_s = [[[0]]], split_probability = [[[1]]],
        R = [[5]], iter = 0, V = [0], policy = [0], thresh = 0\<rparr>"

text \<open>Three states and two actions, every state looping on itself under both actions.\<close>

definition ex_three :: mdp where
  "ex_three = \<lparr>discount = 1 / 2, max_iter = 1, epsilon = 1, S = 3, A = 2, states = 3,
        split_succ_s = [[[0], [1], [2]], [[0], [1], [2]]],
        split_probability = [[[1], [1], [1]], [[1], [1], [1]]],
        R = [[1, 2, 3], [1, 2, 3]], iter = 0, V = [], policy = [], thresh = 0\<rparr>"

text \<open>
  One state and two actions, both a self-loop with probability 1, reward 5, discount one
  tenth and \<open>epsilon\<close> one hundredth, as the policy-iteration constructor leaves it.
\<close>

definition ex_tenth :: mdp where
  "ex_tenth = \<lparr>discount = 1 / 10, max_iter = 10, epsilon = 1 / 100, S = 1, A = 2,
        states = 1, split_succ_s = [[[0]], [[0]]], split_probability = [[[1]], [[1]]],
        R = [[5], [5]], iter = 0, V = [0], policy = [0], thresh = 0\<rparr>"

text \<open>
  Three states and two actions with two successors per state and action, and three
  states and three actions with one successor per state and action, both as the
  policy-iteration constructor leaves them.
\<close>

definition ex_wide :: mdp where
  "ex_wide = \<lparr>discount = 1 / 2, max_iter = 10, epsilon = 1 / 100, S = 6, A = 2, states = 3,
        split_succ_s = [[[0, 1], [2, 1], [2, 0]], [[0, 1], [2, 1], [2, 0]]],
        split_probability = [[[1 / 2, 1 / 2], [1 / 2, 1 / 2], [1 / 2, 1 / 2]],
                             [[1 / 2, 1 / 2], [1 / 2, 1 / 2], [1 / 2, 1 / 2]]],
        R = [[1, 2, 3], [1, 2, 3]], iter = 0, V = [0, 0, 0], policy = [0, 0, 0], thresh = 0\<rparr>"

definition ex_bcast :: mdp where
  "ex_bcast = \<lparr>discount = 1 / 2, max_iter = 10, epsilon = 1 / 100, S = 3, A = 3, states = 3,
        split_succ_s = [[[0], [1], [2]], [[0], [1], [2]], [[0], [1], [2]]],
        split_probability = [[[1], [1], [1]], [[1], [1], [1]], [[1], [1], [1]]],
        R = [[1, 2, 3], [1, 2, 3], [1, 2, 3]], iter = 0, V = [0, 0, 0], policy = [0, 0, 0],
        thresh = 0\<rparr>"

text \<open>
  Two states and three actions with two successors per state and action, under the
  policy that takes action 2 at state 0 and action 0 at state 1.
\<close>

definition ex_full :: mdp where
  "ex_full = \<lparr>discount = 1 / 2, max_iter = 10, epsilon = 1 / 100, S = 4, A = 3, states = 2,
        split_succ_s = [[[0, 1], [1, 1]], [[1, 1], [0, 0]], [[1, 0], [0, 1]]],
        split_probability = [[[1 / 2, 1 / 2], [1 / 4, 3 / 4]], [[1 / 3, 2 / 3], [1 / 2, 1 / 2]],
                             [[1 / 5, 4 / 5], [1, 0]]],
        R = [[1, 2], [1, 2], [1, 2]], iter = 0, V = [0, 0], policy = [2, 0], thresh = 0\<rparr>"

text \<open>
  Two states and two actions, one successor per state and action: action 0 stays,
  action 1 moves to the other state; reward 0 at state 0 and 1 at state 1, discount one
  tenth, as the policy-iteration constructor leaves it.
\<close>

definition ex_two :: mdp where
  "ex_two = \<lparr>discount = 1 / 10, max_iter = 10, epsilon = 1 / 100, S = 2, A = 2,
        states = 2, split_succ_s = [[[0], [1]], [[1], [0]]],
        split_probability = [[[1], [1]], [[1], [1]]],
        R = [[0, 1], [0, 1]], iter = 0, V = [0, 0], policy = [0, 0], thresh = 0\<rparr>"

section \<open>Properties\<close>

subsection \<open>Comprehensions, maxima and the first maximum\<close>

lemma mapM_Inr_D:
  "mapM f xs = Inr ys \<Longrightarrow> list_all2 (\<lambda>x y. f x = Inr y) xs ys"
  by (induction xs arbitrary: ys) (auto split: sum.splits)

lemma mapM_length: "mapM f xs = Inr ys \<Longrightarrow> length ys = length xs"
  by (drule mapM_Inr_D) (simp add: list_all2_lengthD)

lemma mapM_nth: "mapM f xs = Inr ys \<Longrightarrow> i < length xs \<Longrightarrow> f (xs ! i) = Inr (ys ! i)"
  by (drule mapM_Inr_D) (auto dest: list_all2_nthD)

lemma mapM_total:
  "(\<And>x. x \<in> set xs \<Longrightarrow> \<exists>y. f x = Inr y) \<Longrightarrow> \<exists>ys. mapM f xs = Inr ys"
proof (induction xs)
  case Nil
  then show ?case by simp
next
  case (Cons x xs)
  then obtain y where "f x = Inr y" by auto
  moreover from Cons obtain ys where "mapM f xs = Inr ys" by auto
  ultimately show ?case by simp
qed

lemma list_max_Max: "xs \<noteq> [] \<Longrightarrow> list_max xs = Max (set xs)"
proof (cases xs)
  case Nil
  then show "xs \<noteq> [] \<Longrightarrow> ?thesis" by simp
next
  case (Cons x ys)
  have "foldl max x ys = fold max ys x"
    by (simp add: foldl_conv_fold max.commute)
  moreover have "Max (set (x # ys)) = fold max ys x"
    by (rule Max.set_eq_fold)
  ultimately show ?thesis using Cons by simp
qed

lemma argmax_scan_spec:
  assumes "length pre = i" "bi < i" "pre ! bi = best"
    "\<forall>k<i. pre ! k \<le> best" "\<forall>k<bi. pre ! k < best"
  shows "argmax_scan best bi i xs < length (pre @ xs) \<and>
         (\<forall>k < length (pre @ xs). (pre @ xs) ! k \<le> (pre @ xs) ! argmax_scan best bi i xs) \<and>
         (\<forall>k < argmax_scan best bi i xs. (pre @ xs) ! k < (pre @ xs) ! argmax_scan best bi i xs)"
  using assms
proof (induction xs arbitrary: pre best bi i)
  case Nil
  then show ?case by auto
next
  case (Cons x xs)
  show ?case
  proof (cases "best < x")
    case True
    have "argmax_scan x i (Suc i) xs < length ((pre @ [x]) @ xs) \<and>
         (\<forall>k < length ((pre @ [x]) @ xs). ((pre @ [x]) @ xs) ! k \<le> ((pre @ [x]) @ xs) ! argmax_scan x i (Suc i) xs) \<and>
         (\<forall>k < argmax_scan x i (Suc i) xs. ((pre @ [x]) @ xs) ! k < ((pre @ [x]) @ xs) ! argmax_scan x i (Suc i) xs)"
    proof (rule Cons.IH)
      show "length (pre @ [x]) = Suc i" using Cons.prems by simp
      show "i < Suc i" by simp
      show "(pre @ [x]) ! i = x" using Cons.prems by (simp add: nth_append)
      show "\<forall>k<Suc i. (pre @ [x]) ! k \<le> x"
        using Cons.prems True by (auto simp: nth_append less_Suc_eq)
      show "\<forall>k<i. (pre @ [x]) ! k < x"
        using Cons.prems True by (auto simp: nth_append)
    qed
    then show ?thesis using True by simp
  next
    case False
    have "argmax_scan best bi (Suc i) xs < length ((pre @ [x]) @ xs) \<and>
         (\<forall>k < length ((pre @ [x]) @ xs). ((pre @ [x]) @ xs) ! k \<le> ((pre @ [x]) @ xs) ! argmax_scan best bi (Suc i) xs) \<and>
         (\<forall>k < argmax_scan best bi (Suc i) xs. ((pre @ [x]) @ xs) ! k < ((pre @ [x]) @ xs) ! argmax_scan best bi (Suc i) xs)"
    proof (rule Cons.IH)
      show "length (pre @ [x]) = Suc i" using Cons.prems by simp
      show "bi < Suc i" using Cons.prems by simp
      show "(pre @ [x]) ! bi = best" using Cons.prems by (simp add: nth_append)
      show "\<forall>k<Suc i. (pre @ [x]) ! k \<le> best"
        using Cons.prems False by (auto simp: nth_append less_Suc_eq)
      show "\<forall>k<bi. (pre @ [x]) ! k < best"
        using Cons.prems by (auto simp: nth_append)
    qed
    then show ?thesis using False by simp
  qed
qed

lemma argmax_first:
  assumes "ys \<noteq> []"
  shows "argmax_scan (hd ys) 0 1 (tl ys) < length ys \<and>
         (\<forall>k < length ys. ys ! k \<le> ys ! argmax_scan (hd ys) 0 1 (tl ys)) \<and>
         (\<forall>k < argmax_scan (hd ys) 0 1 (tl ys). ys ! k < ys ! argmax_scan (hd ys) 0 1 (tl ys))"
proof -
  obtain x xs where ys: "ys = x # xs" using assms by (cases ys) auto
  have "argmax_scan x 0 1 xs < length ([x] @ xs) \<and>
         (\<forall>k < length ([x] @ xs). ([x] @ xs) ! k \<le> ([x] @ xs) ! argmax_scan x 0 1 xs) \<and>
         (\<forall>k < argmax_scan x 0 1 xs. ([x] @ xs) ! k < ([x] @ xs) ! argmax_scan x 0 1 xs)"
    by (rule argmax_scan_spec) auto
  then show ?thesis using ys by simp
qed

lemma mapM_pure: "(\<And>x. x \<in> set xs \<Longrightarrow> f x = Inr (g x)) \<Longrightarrow> mapM f xs = Inr (map g xs)"
  by (induction xs) auto

lemma np_take_in_range:
  assumes "\<forall>i\<in>set is. 0 \<le> i \<and> i < int (length xs)"
  shows "np_take xs is = Inr (map (\<lambda>i. xs ! nat i) is)"
  unfolding np_take_def
  by (rule mapM_pure) (use assms in \<open>auto simp: np_index_def Let_def\<close>)

lemma sum_list_map2_nth:
  "length ps = length vs \<Longrightarrow> sum_list (map2 (*) ps vs) = (\<Sum>i<length ps. ps ! i * vs ! i :: real)"
  by (simp add: sum_list_sum_nth atLeast0LessThan)

lemma q_value_ok:
  assumes "solver_ok st" "length v = states st" "a < A st" "s < states st"
  shows "q_value st v a s = Inr (Qsa st v s a)"
proof -
  let ?sc = "split_succ_s st ! a ! s" and ?p = "split_probability st ! a ! s"
  have len: "length ?p = length ?sc" and rng: "\<forall>i\<in>set ?sc. 0 \<le> i \<and> i < int (length v)"
    using assms unfolding solver_ok_def by auto
  have tk: "np_take v ?sc = Inr (map (\<lambda>i. v ! nat i) ?sc)"
    by (rule np_take_in_range) (rule rng)
  have dt: "np_dot ?p (map (\<lambda>i. v ! nat i) ?sc) = Inr (\<Sum>i<length ?sc. ?p ! i * v ! nat (?sc ! i))"
    using len by (simp add: np_dot_def sum_list_map2_nth)
  have ix: "idx (R st) a = Inr (R st ! a)" "idx (R st ! a) s = Inr (R st ! a ! s)"
    "idx (split_probability st) a = Inr (split_probability st ! a)"
    "idx (split_probability st ! a) s = Inr ?p"
    "idx (split_succ_s st) a = Inr (split_succ_s st ! a)"
    "idx (split_succ_s st ! a) s = Inr ?sc"
    using assms unfolding solver_ok_def idx_def by auto
  show ?thesis
    unfolding q_value_def Qsa_def by (simp add: ix tk dt)
qed

lemma bellman_table_ok:
  assumes "solver_ok st" "length v = states st"
  shows "mapM (\<lambda>a. mapM (\<lambda>s1. q_value st v a s1) [0..<states st]) [0..<A st] =
         Inr (map (\<lambda>a. map (\<lambda>s. Qsa st v s a) [0..<states st]) [0..<A st])"
proof (rule mapM_pure)
  fix a assume "a \<in> set [0..<A st]"
  then have a: "a < A st" by simp
  show "mapM (q_value st v a) [0..<states st] = Inr (map (\<lambda>s. Qsa st v s a) [0..<states st])"
    by (rule mapM_pure) (use assms a in \<open>simp add: q_value_ok\<close>)
qed

lemma column_table:
  "s < n \<Longrightarrow> column (map (\<lambda>a. map (\<lambda>s. f s a) [0..<n]) [0..<m]) s = map (f s) [0..<m]"
  by (simp add: column_def)

lemma ex_chain_ok: "solver_ok ex_chain"
  unfolding solver_ok_def ex_chain_def
  by (simp add: less_Suc_eq numeral_2_eq_2 numeral_3_eq_3 all_conj_distrib)

subsection \<open>The Bellman operator\<close>

lemma bellmanOperator_table:
  assumes "solver_ok st" and "v = (case Vopt of None \<Rightarrow> V st | Some w \<Rightarrow> w)"
    and "length v = states st"
  shows "bellmanOperator st Vopt =
           Inr (map (\<lambda>s. real (argmax_scan (hd (map (Qsa st v s) [0..<A st])) 0 1
                                  (tl (map (Qsa st v s) [0..<A st])))) [0..<states st],
                map (\<lambda>s. list_max (map (Qsa st v s) [0..<A st])) [0..<states st])"
proof -
  let ?Q = "map (\<lambda>a. map (\<lambda>s. Qsa st v s a) [0..<states st]) [0..<A st]"
  have Apos: "0 < A st" using assms(1) by (simp add: solver_ok_def)
  have chk: "\<not> (case Vopt of None \<Rightarrow> False | Some w \<Rightarrow> length w \<noteq> states st)"
    using assms(2,3) by (cases Vopt) auto
  have Qne: "?Q \<noteq> []" using Apos by simp
  have col: "\<And>s. s \<in> set [0..<states st] \<Longrightarrow> column ?Q s = map (Qsa st v s) [0..<A st]"
    by (simp add: column_table)
  show ?thesis
    unfolding bellmanOperator_def
    using chk Qne bellman_table_ok[OF assms(1,3)] assms(2) col
    by (simp add: Let_def cong: map_cong)
qed

text \<open>
  Claim C1. On a well-formed solver object and a value function with one entry per
  state (passed by the caller, or the stored one), the Bellman operator returns a
  policy and a value vector with one entry per state such that, at every state \<open>s\<close>,
  the value is the maximum over the actions \<open>a\<close> of the action value
  \<open>Q(s,a) = R[a][s] + \<gamma> \<cdot> \<Sum>\<^sub>i prob[a][s][i] \<cdot> V[succ[a][s][i]]\<close>, and the policy entry
  is an action that attains it while every action of lower index stays strictly below.
\<close>

theorem bellmanOperator_greedy:
  assumes "solver_ok st" and "v = (case Vopt of None \<Rightarrow> V st | Some w \<Rightarrow> w)"
    and "length v = states st"
  shows "\<exists>pol val. bellmanOperator st Vopt = Inr (pol, val) \<and>
           length pol = states st \<and> length val = states st \<and>
           (\<forall>s<states st.
              val ! s = Max (Qsa st v s ` {..<A st}) \<and>
              (\<exists>a<A st. pol ! s = real a \<and> Qsa st v s a = val ! s \<and>
                         (\<forall>b<a. Qsa st v s b < Qsa st v s a)))"
proof -
  define pol where
    "pol = map (\<lambda>s. real (argmax_scan (hd (map (Qsa st v s) [0..<A st])) 0 1
                             (tl (map (Qsa st v s) [0..<A st])))) [0..<states st]"
  define val where "val = map (\<lambda>s. list_max (map (Qsa st v s) [0..<A st])) [0..<states st]"
  have Apos: "0 < A st" using assms(1) by (simp add: solver_ok_def)
  have run: "bellmanOperator st Vopt = Inr (pol, val)"
    unfolding pol_def val_def using assms by (rule bellmanOperator_table)
  have each: "val ! s = Max (Qsa st v s ` {..<A st}) \<and>
              (\<exists>a<A st. pol ! s = real a \<and> Qsa st v s a = val ! s \<and>
                         (\<forall>b<a. Qsa st v s b < Qsa st v s a))" if s: "s < states st" for s
  proof -
    let ?col = "map (Qsa st v s) [0..<A st]"
    have ne: "?col \<noteq> []" using Apos by simp
    have mx: "list_max ?col = Max (Qsa st v s ` {..<A st})"
      using list_max_Max[OF ne] by (simp add: atLeast0LessThan)
    define a where "a = argmax_scan (hd ?col) 0 1 (tl ?col)"
    from argmax_first[OF ne]
    have a1: "a < A st" and a2: "\<forall>k<A st. Qsa st v s k \<le> Qsa st v s a"
      and a3: "\<forall>k<a. Qsa st v s k < Qsa st v s a"
      unfolding a_def by auto
    have vs: "val ! s = Max (Qsa st v s ` {..<A st})"
      using s mx by (simp add: val_def)
    have ps: "pol ! s = real a"
      using s by (simp add: pol_def a_def)
    have "Max (Qsa st v s ` {..<A st}) = Qsa st v s a"
    proof (rule Max_eqI)
      show "finite (Qsa st v s ` {..<A st})" by simp
      show "\<And>y. y \<in> Qsa st v s ` {..<A st} \<Longrightarrow> y \<le> Qsa st v s a" using a2 by auto
      show "Qsa st v s a \<in> Qsa st v s ` {..<A st}" using a1 by auto
    qed
    with vs ps a1 a3 show ?thesis by metis
  qed
  show ?thesis
  proof (intro exI conjI)
    show "bellmanOperator st Vopt = Inr (pol, val)" by (rule run)
    show "length pol = states st" by (simp add: pol_def)
    show "length val = states st" by (simp add: val_def)
    show "\<forall>s<states st. val ! s = Max (Qsa st v s ` {..<A st}) \<and>
              (\<exists>a<A st. pol ! s = real a \<and> Qsa st v s a = val ! s \<and>
                         (\<forall>b<a. Qsa st v s b < Qsa st v s a))"
      using each by blast
  qed
qed

theorem bellmanOperator_greedy_witness:
  "solver_ok ex_chain \<and>
   (\<exists>pol val. bellmanOperator ex_chain (Some [1, 1, 3 / 2]) = Inr (pol, val) \<and>
      length pol = 3 \<and> length val = 3 \<and>
      val ! 1 = Max (Qsa ex_chain [1, 1, 3 / 2] 1 ` {..<2}))"
proof -
  have st: "states ex_chain = 3" "A ex_chain = 2" by (simp_all add: ex_chain_def)
  from bellmanOperator_greedy[OF ex_chain_ok, of "[1, 1, 3 / 2]" "Some [1, 1, 3 / 2]"]
  obtain pol val where
    "bellmanOperator ex_chain (Some [1, 1, 3 / 2]) = Inr (pol, val)"
    "length pol = 3" "length val = 3"
    "\<forall>s<3. val ! s = Max (Qsa ex_chain [1, 1, 3 / 2] s ` {..<2})"
    unfolding st by auto
  then show ?thesis using ex_chain_ok by auto
qed

subsection \<open>Results of a bind, and what the loops leave alone\<close>

lemma same_model_refl [simp]: "same_model st st"
  by (simp add: same_model_def)

lemma same_model_trans: "same_model a b \<Longrightarrow> same_model b c \<Longrightarrow> same_model a c"
  by (simp add: same_model_def)

lemma same_model_upd [simp]:
  "same_model st (st'\<lparr>iter := i\<rparr>) = same_model st st'"
  "same_model st (st'\<lparr>V := v\<rparr>) = same_model st st'"
  "same_model st (st'\<lparr>policy := p\<rparr>) = same_model st st'"
  by (simp_all add: same_model_def)

lemma bindE_Inr_iff: "bindE m f = Inr y \<longleftrightarrow> (\<exists>x. m = Inr x \<and> f x = Inr y)"
  by (cases m) auto

lemma gs_loop_same_aux:
  assumes "gs_loop st = Some r"
  shows "case r of Inl e \<Rightarrow> True | Inr st' \<Rightarrow> same_model st st'"
proof (rule gs_loop.raw_induct[where P = "\<lambda>st r. case r of Inl e \<Rightarrow> True | Inr st' \<Rightarrow> same_model st st'", OF _ assms], goal_cases)
  case (1 f st r)
  show ?case using 1(2)
    by (auto split: sum.splits if_splits option.splits dest!: 1(1)  simp: same_model_def)
qed

lemma gs_loop_same: "gs_loop st = Some (Inr st') \<Longrightarrow> same_model st st'"
  by (drule gs_loop_same_aux) simp

lemma vi_loop_same_aux:
  assumes "vi_loop st = Some r"
  shows "case r of Inl e \<Rightarrow> True | Inr st' \<Rightarrow> same_model st st'"
proof (rule vi_loop.raw_induct[where P = "\<lambda>st r. case r of Inl e \<Rightarrow> True | Inr st' \<Rightarrow> same_model st st'", OF _ assms], goal_cases)
  case (1 f st r)
  show ?case using 1(2)
    by (auto split: sum.splits if_splits option.splits dest!: 1(1)  simp: same_model_def)
qed

lemma vi_loop_same: "vi_loop st = Some (Inr st') \<Longrightarrow> same_model st st'"
  by (drule vi_loop_same_aux) simp

lemma evalPolicyIterative_same:
  "evalPolicyIterative st V0 eps maxit = Some (Inr st') \<Longrightarrow> same_model st st' \<and> iter st' = iter st \<and> policy st' = policy st"
  by (auto simp: evalPolicyIterative_def split: sum.splits option.splits prod.splits)

lemma pi_loop_same_aux:
  assumes "pi_loop st = Some r"
  shows "case r of Inl e \<Rightarrow> True | Inr st' \<Rightarrow> same_model st st'"
proof (rule pi_loop.raw_induct[where P = "\<lambda>st r. case r of Inl e \<Rightarrow> True | Inr st' \<Rightarrow> same_model st st'", OF _ assms], goal_cases)
  case (1 f st r)
  show ?case using 1(2)
    by (auto split: sum.splits if_splits option.splits dest!: 1(1) evalPolicyIterative_same simp: same_model_def)
qed

lemma pi_loop_same: "pi_loop st = Some (Inr st') \<Longrightarrow> same_model st st'"
  by (drule pi_loop_same_aux) simp

subsection \<open>What the constructor establishes\<close>

lemma chunks_length [simp]: "length (chunks n k xs) = n"
  by (induction n arbitrary: xs) auto

lemma chunks_all_length:
  "n * k \<le> length xs \<Longrightarrow> c \<in> set (chunks n k xs) \<Longrightarrow> length c = k"
proof (induction n arbitrary: xs)
  case 0
  then show ?case by simp
next
  case (Suc n)
  from Suc.prems have k: "k \<le> length xs" and d: "n * k \<le> length (drop k xs)" by auto
  from Suc.prems(2) have "c = take k xs \<or> c \<in> set (chunks n k (drop k xs))" by simp
  then show ?case
  proof
    assume "c = take k xs"
    then show ?thesis using k by simp
  next
    assume "c \<in> set (chunks n k (drop k xs))"
    then show ?thesis using Suc.IH[OF d] by simp
  qed
qed

lemma np_split_Inr:
  assumes "np_split xs n = Inr cs"
  shows "0 < n" "length cs = n" "\<forall>c\<in>set cs. length c = length xs div n"
proof -
  from assms have n: "n \<noteq> 0" and m: "length xs mod n = 0"
    and cs: "cs = chunks n (length xs div n) xs"
    by (auto simp: np_split_def split: if_splits)
  show "0 < n" using n by simp
  show "length cs = n" using cs by simp
  have "n * (length xs div n) \<le> length xs" by simp
  then show "\<forall>c\<in>set cs. length c = length xs div n"
    using cs chunks_all_length by blast
qed

lemma split_action_Inr:
  assumes "split_action succ_s probability_s n aa = Inr (sc, pc)"
  shows "aa < length succ_s" "aa < length probability_s"
    "np_split (succ_s ! aa) n = Inr sc" "np_split (probability_s ! aa) n = Inr pc"
  using assms
  by (auto simp: split_action_def bindE_Inr_iff idx_def split: if_splits)

lemma computeReward_Inr:
  "computeReward nA n r = Inr Rw \<Longrightarrow> length r = n \<and> Rw = replicate nA r"
  by (auto simp: computeReward_def computeVectorReward_def split: if_splits)

lemma MDP_init_Inr:
  assumes "MDP_init succ_s probability_s Rin n disc eps maxit = Inr st"
  shows "discount st = disc" "0 < disc" "disc \<le> 1" "max_iter st = maxit" "0 < maxit"
    "epsilon st = eps" "0 < eps" "A st = length succ_s" "0 < A st" "S st = length (hd succ_s)"
    "states st = n" "R st = replicate (A st) Rin" "length Rin = n" "iter st = 0"
    "mapM (split_action succ_s probability_s n) [0..<A st] =
       Inr (zip (split_succ_s st) (split_probability st))"
proof -
  from assms have c: "0 < disc" "disc \<le> 1" "0 < maxit" "0 < eps"
    by (auto simp: MDP_init_def split: if_splits)
  from assms c obtain dims R' splits where
    d: "computeDimensions succ_s = Inr dims" and r: "computeReward (snd dims) n Rin = Inr R'"
    and sp: "mapM (split_action succ_s probability_s n) [0..<snd dims] = Inr splits"
    and st: "st = \<lparr>discount = disc, max_iter = maxit, epsilon = eps,
               S = fst dims, A = snd dims, states = n,
               split_succ_s = map fst splits, split_probability = map snd splits,
               R = R', iter = 0, V = [], policy = [], thresh = 0\<rparr>"
    by (auto simp: MDP_init_def bindE_Inr_iff)
  from d have dims: "dims = (length (hd succ_s), length succ_s)" "succ_s \<noteq> []"
    by (auto simp: computeDimensions_def split: list.splits)
  show "discount st = disc" "0 < disc" "disc \<le> 1" "max_iter st = maxit" "0 < maxit"
    "epsilon st = eps" "0 < eps" "states st = n" "iter st = 0"
    using c st by simp_all
  show "A st = length succ_s" "0 < A st" "S st = length (hd succ_s)"
    using st dims by simp_all
  show "R st = replicate (A st) Rin" "length Rin = n"
    using computeReward_Inr[OF r] st by simp_all
  have "zip (map fst splits) (map snd splits) = splits"
    by (simp add: zip_map_fst_snd)
  then show "mapM (split_action succ_s probability_s n) [0..<A st] =
       Inr (zip (split_succ_s st) (split_probability st))"
    using sp st by simp
qed

lemma MDP_init_shape:
  assumes "MDP_init succ_s probability_s Rin n disc eps maxit = Inr st"
  shows "0 < n" "length (split_succ_s st) = A st" "length (split_probability st) = A st"
    "\<And>a. a < A st \<Longrightarrow> np_split (succ_s ! a) n = Inr (split_succ_s st ! a)"
    "\<And>a. a < A st \<Longrightarrow> np_split (probability_s ! a) n = Inr (split_probability st ! a)"
    "\<And>a. a < A st \<Longrightarrow> length (split_succ_s st ! a) = n"
    "\<And>a. a < A st \<Longrightarrow> length (split_probability st ! a) = n"
proof -
  note f = MDP_init_Inr[OF assms]
  let ?z = "zip (split_succ_s st) (split_probability st)"
  have m: "mapM (split_action succ_s probability_s n) [0..<A st] = Inr ?z" by (rule f)
  from assms obtain splits where
    "split_succ_s st = map fst splits" "split_probability st = map snd splits"
    by (auto simp: MDP_init_def bindE_Inr_iff split: if_splits)
  then have leq: "length (split_succ_s st) = length (split_probability st)" by simp
  have "length ?z = A st" using mapM_length[OF m] by simp
  with leq show l1: "length (split_succ_s st) = A st" and l2: "length (split_probability st) = A st"
    by simp_all
  have each: "split_action succ_s probability_s n a = Inr (split_succ_s st ! a, split_probability st ! a)"
    if "a < A st" for a
    using mapM_nth[OF m, of a] that l1 l2 by simp
  show s1: "\<And>a. a < A st \<Longrightarrow> np_split (succ_s ! a) n = Inr (split_succ_s st ! a)"
    using each split_action_Inr(3) by blast
  show s2: "\<And>a. a < A st \<Longrightarrow> np_split (probability_s ! a) n = Inr (split_probability st ! a)"
    using each split_action_Inr(4) by blast
  show "0 < n" using s1[of 0] f(9) np_split_Inr(1) by blast
  show "\<And>a. a < A st \<Longrightarrow> length (split_succ_s st ! a) = n"
    using s1 np_split_Inr(2) by blast
  show "\<And>a. a < A st \<Longrightarrow> length (split_probability st ! a) = n"
    using s2 np_split_Inr(2) by blast
qed

lemma chunks_subset: "c \<in> set (chunks n k xs) \<Longrightarrow> set c \<subseteq> set xs"
proof (induction n arbitrary: xs)
  case 0
  then show ?case by simp
next
  case (Suc n)
  from Suc.prems have "c = take k xs \<or> c \<in> set (chunks n k (drop k xs))" by simp
  then show ?case
  proof
    assume "c = take k xs"
    then show ?thesis by (simp add: set_take_subset)
  next
    assume "c \<in> set (chunks n k (drop k xs))"
    from Suc.IH[OF this] show ?thesis using set_drop_subset[of k xs] by blast
  qed
qed

lemma np_split_subset: "np_split xs n = Inr cs \<Longrightarrow> c \<in> set cs \<Longrightarrow> set c \<subseteq> set xs"
  by (auto simp: np_split_def split: if_splits dest: chunks_subset)

lemma MDP_init_ok:
  assumes m: "MDP_init succ_s probability_s r n disc eps maxit = Inr st"
    and v: "valid_tables n B succ_s probability_s"
  shows "solver_ok st" "0 < states st" "0 < discount st"
    "\<forall>a<A st. \<forall>s<states st. length (split_succ_s st ! a ! s) = B"
proof -
  note f = MDP_init_Inr[OF m] and g = MDP_init_shape[OF m]
  from v have lp: "length probability_s = length succ_s"
    and vs: "\<And>a. a < length succ_s \<Longrightarrow> length (succ_s ! a) = n * B \<and>
                 (\<forall>i\<in>set (succ_s ! a). 0 \<le> i \<and> i < int n)"
    and vp: "\<And>a. a < length succ_s \<Longrightarrow> length (probability_s ! a) = n * B"
    by (auto simp: valid_tables_def list_all_iff)
  have n: "states st = n" "0 < n" using f g by simp_all
  show "0 < states st" "0 < discount st" using n f by simp_all
  have sc: "length (split_succ_s st ! a ! s) = B \<and>
            (\<forall>i\<in>set (split_succ_s st ! a ! s). 0 \<le> i \<and> i < int n)"
    if a: "a < A st" and s: "s < n" for a s
  proof -
    have sp: "np_split (succ_s ! a) n = Inr (split_succ_s st ! a)" using g(4)[OF a] .
    have mem: "split_succ_s st ! a ! s \<in> set (split_succ_s st ! a)" using g(6)[OF a] s by simp
    have "length (split_succ_s st ! a ! s) = length (succ_s ! a) div n"
      using np_split_Inr(3)[OF sp] mem by blast
    moreover have "set (split_succ_s st ! a ! s) \<subseteq> set (succ_s ! a)"
      using np_split_subset[OF sp mem] .
    ultimately show ?thesis using vs[of a] a f(8) n(2) by auto
  qed
  have pc: "length (split_probability st ! a ! s) = B" if a: "a < A st" and s: "s < n" for a s
  proof -
    have sp: "np_split (probability_s ! a) n = Inr (split_probability st ! a)" using g(5)[OF a] .
    have mem: "split_probability st ! a ! s \<in> set (split_probability st ! a)"
      using g(7)[OF a] s by simp
    have "length (split_probability st ! a ! s) = length (probability_s ! a) div n"
      using np_split_Inr(3)[OF sp] mem by blast
    then show ?thesis using vp[of a] a f(8) n(2) by auto
  qed
  show "\<forall>a<A st. \<forall>s<states st. length (split_succ_s st ! a ! s) = B"
    using sc n by simp
  show "solver_ok st"
    unfolding solver_ok_def using f g sc pc n by simp
qed

lemma GS_init_shape:
  assumes "GS_init succ_s probability_s r n disc eps maxit iv = Inr st"
  shows "states st = n" "A st = length succ_s" "length (V st) = n"
    "length (split_succ_s st ! 0) = n" "split_succ_s st \<noteq> []"
proof -
  from assms obtain st0 v0 where m: "MDP_init succ_s probability_s r n disc eps maxit = Inr st0"
    and v0: "length v0 = n"
    and st: "same_model st0 (st\<lparr>max_iter := max_iter st0, thresh := thresh st0\<rparr>) \<and> V st = v0"
    by (auto simp: GS_init_def bindE_Inr_iff boundIter_def Let_def same_model_def
        split: if_splits option.splits)
  note f = MDP_init_Inr[OF m] MDP_init_shape[OF m]
  show "states st = n" "A st = length succ_s" "length (V st) = n"
    using st f v0 by (simp_all add: same_model_def)
  have "split_succ_s st = split_succ_s st0" using st by (simp add: same_model_def)
  then show "length (split_succ_s st ! 0) = n" "split_succ_s st \<noteq> []"
    using f by auto
qed

lemma GS_init_ok:
  assumes i: "GS_init succ_s probability_s r n disc eps maxit iv = Inr st"
    and v: "valid_tables n B succ_s probability_s"
  shows "solver_ok st \<and> length (V st) = states st"
proof -
  from i obtain st0 v0 where m: "MDP_init succ_s probability_s r n disc eps maxit = Inr st0"
    and st: "same_model st0 (st\<lparr>max_iter := max_iter st0, thresh := thresh st0\<rparr>)"
    by (auto simp: GS_init_def bindE_Inr_iff boundIter_def Let_def same_model_def
        split: if_splits option.splits)
  have "solver_ok st0" using MDP_init_ok(1)[OF m v] .
  then have "solver_ok st" using st by (simp add: solver_ok_def same_model_def)
  then show ?thesis using GS_init_shape[OF i] by simp
qed

subsection \<open>Evaluating the examples\<close>

lemma chunks_numeral [simp]: "chunks (numeral n) k xs = take k xs # chunks (pred_numeral n) k (drop k xs)"
  by (simp add: numeral_eq_Suc)

lemma chunks_Suc0 [simp]: "chunks (Suc 0) k xs = [take k xs]"
  by simp

lemma replicate_numeral [simp]: "replicate (numeral n) x = x # replicate (pred_numeral n) x"
  by (simp add: numeral_eq_Suc)

lemmas eval_defs = MDP_init_def computeDimensions_def computeReward_def
  computeVectorReward_def split_action_def idx_def np_split_def
  bellmanOperator_def q_value_def np_take_def np_index_def np_dot_def column_def getSpan_def
  np_broadcast2_def gs_step_def gs_finish_def vi_step_def upt_rec

lemma GS_init_ex_chain:
  "GS_init [[0, 0, 2], [0, 2, 2]] [[1, 1, 1], [1, 1, 1]] [1, 0, 3 / 2] 3 1 (1 / 100) 1 None = Inr ex_chain"
  by (simp add: GS_init_def ex_chain_def eval_defs)

lemma gs_loop_ex_chain:
  "gs_loop ex_chain = Some (Inr (ex_chain\<lparr>iter := 1, V := [1, 1, 3 / 2]\<rparr>))"
  by (subst gs_loop.simps) (simp add: ex_chain_def eval_defs)

lemma GS_run_ex_chain:
  "GS_run ex_chain = Some (Inr (ex_chain\<lparr>iter := 1, V := [2, 2, 3], policy := [0, 0, 0]\<rparr>))"
  unfolding GS_run_def gs_loop_ex_chain
  by (simp add: ex_chain_def eval_defs)

subsection \<open>The pass after the Gauss-Seidel loop\<close>

lemma q_row_ok:
  assumes "solver_ok st" "length v = states st" "s < states st"
  shows "mapM (\<lambda>a. q_value st v a s) [0..<A st] = Inr (map (Qsa st v s) [0..<A st])"
  by (rule mapM_pure) (use assms in \<open>simp add: q_value_ok\<close>)

lemma first_max_row:
  fixes f :: "nat \<Rightarrow> real" and n :: nat
  defines "Q \<equiv> map f [0..<n]"
  assumes "0 < n"
  shows "list_max Q = Max (f ` {..<n})"
    and "argmax_scan (hd Q) 0 1 (tl Q) < n"
    and "f (argmax_scan (hd Q) 0 1 (tl Q)) = Max (f ` {..<n})"
    and "\<forall>b<argmax_scan (hd Q) 0 1 (tl Q). f b < f (argmax_scan (hd Q) 0 1 (tl Q))"
proof -
  have ne: "Q \<noteq> []" using assms by simp
  show mx: "list_max Q = Max (f ` {..<n})"
    using list_max_Max[OF ne] by (simp add: Q_def atLeast0LessThan)
  define a where "a = argmax_scan (hd Q) 0 1 (tl Q)"
  from argmax_first[OF ne]
  have a1: "a < n" and a2: "\<forall>k<n. f k \<le> f a" and a3: "\<forall>k<a. f k < f a"
    unfolding a_def Q_def by auto
  have "Max (f ` {..<n}) = f a"
  proof (rule Max_eqI)
    show "finite (f ` {..<n})" by simp
    show "\<And>y. y \<in> f ` {..<n} \<Longrightarrow> y \<le> f a" using a2 by auto
    show "f a \<in> f ` {..<n}" using a1 by auto
  qed
  then show "argmax_scan (hd Q) 0 1 (tl Q) < n"
    and "f (argmax_scan (hd Q) 0 1 (tl Q)) = Max (f ` {..<n})"
    and "\<forall>b<argmax_scan (hd Q) 0 1 (tl Q). f b < f (argmax_scan (hd Q) 0 1 (tl Q))"
    using a1 a3 unfolding a_def by simp_all
qed

lemma gs_final_upt:
  assumes ok: "solver_ok st"
  shows "length v = states st \<Longrightarrow> k \<le> states st \<Longrightarrow>
    \<exists>v' ps. gs_final st v pol [k..<states st] = Inr (v', pol @ ps) \<and>
       length v' = states st \<and> length ps = states st - k \<and>
       (\<forall>j<k. v' ! j = v ! j) \<and>
       (\<forall>s. k \<le> s \<and> s < states st \<longrightarrow>
          v' ! s = Max (Qsa st (take s v' @ drop s v) s ` {..<A st}) \<and>
          greedy_at st (take s v' @ drop s v) s (ps ! (s - k)))"
proof (induction "states st - k" arbitrary: k v pol)
  case 0
  then have "k = states st" by simp
  then show ?case using 0 by auto
next
  case (Suc d)
  let ?n = "states st"
  have kn: "k < ?n" using Suc.hyps(2) by simp
  have Apos: "0 < A st" using ok by (simp add: solver_ok_def)
  define Q where "Q = map (Qsa st v k) [0..<A st]"
  have row: "mapM (\<lambda>a. q_value st v a k) [0..<A st] = Inr Q"
    unfolding Q_def using ok Suc.prems(1) kn by (rule q_row_ok)
  have Qne: "Q \<noteq> []" using Apos by (simp add: Q_def)
  define a where "a = argmax_scan (hd Q) 0 1 (tl Q)"
  define v1 where "v1 = v[k := list_max Q]"
  note fm = first_max_row[OF Apos, of "Qsa st v k", folded Q_def, folded a_def]
  have len1: "length v1 = ?n" using Suc.prems by (simp add: v1_def)
  have d: "d = ?n - Suc k" using Suc.hyps(2) by simp
  from Suc.hyps(1)[OF d len1, of "pol @ [real a]"] kn
  obtain v' ps where
    run: "gs_final st v1 (pol @ [real a]) [Suc k..<?n] = Inr (v', (pol @ [real a]) @ ps)"
    and lv: "length v' = ?n" and lp: "length ps = ?n - Suc k"
    and keep: "\<forall>j<Suc k. v' ! j = v1 ! j"
    and later: "\<forall>s. Suc k \<le> s \<and> s < ?n \<longrightarrow>
          v' ! s = Max (Qsa st (take s v' @ drop s v1) s ` {..<A st}) \<and>
          greedy_at st (take s v' @ drop s v1) s (ps ! (s - Suc k))"
    by auto
  have step: "gs_final st v pol [k..<?n] = Inr (v', pol @ (real a # ps))"
    using kn row Qne Suc.prems(1) run
    by (simp add: upt_conv_Cons v1_def a_def)
  have vk: "take k v' @ drop k v = v"
  proof (rule nth_equalityI)
    show "length (take k v' @ drop k v) = length v" using lv Suc.prems kn by simp
    fix i assume "i < length (take k v' @ drop k v)"
    then have i: "i < ?n" using lv Suc.prems kn by simp
    show "(take k v' @ drop k v) ! i = v ! i"
    proof (cases "i < k")
      case True
      then have "v' ! i = v1 ! i" using keep by simp
      then show ?thesis using True lv kn by (simp add: nth_append v1_def)
    next
      case False
      then show ?thesis using lv kn i Suc.prems by (simp add: nth_append)
    qed
  qed
  have dr: "drop s v1 = drop s v" if "Suc k \<le> s" for s
    using that by (simp add: v1_def)
  show ?case
  proof (intro exI conjI allI impI)
    show "gs_final st v pol [k..<?n] = Inr (v', pol @ (real a # ps))" by (rule step)
    show "length v' = ?n" by (rule lv)
    show "length (real a # ps) = ?n - k" using lp kn by simp
    show "v' ! j = v ! j" if "j < k" for j
      using keep that by (simp add: v1_def)
    show "v' ! s = Max (Qsa st (take s v' @ drop s v) s ` {..<A st})"
      if "k \<le> s \<and> s < ?n" for s
    proof (cases "s = k")
      case True
      have "v' ! k = list_max Q" using keep Suc.prems kn by (simp add: v1_def)
      then show ?thesis using True vk fm(1) by simp
    next
      case False
      then have "Suc k \<le> s" using that by simp
      then show ?thesis using later that dr by simp
    qed
    show "greedy_at st (take s v' @ drop s v) s ((real a # ps) ! (s - k))"
      if "k \<le> s \<and> s < ?n" for s
    proof (cases "s = k")
      case True
      have "greedy_at st v k (real a)"
        unfolding greedy_at_def using fm(2,3,4) by blast
      then show ?thesis using True vk by simp
    next
      case False
      then have s: "Suc k \<le> s" using that by simp
      then have "(real a # ps) ! (s - k) = ps ! (s - Suc k)"
        by (simp add: nth_Cons') 
      then show ?thesis using later that dr s by simp
    qed
  qed
qed

lemma same_model_Qsa: "same_model st st' \<Longrightarrow> Qsa st' = Qsa st"
  by (intro ext) (simp add: same_model_def Qsa_def)

lemma same_model_greedy: "same_model st st' \<Longrightarrow> greedy_at st' = greedy_at st"
  by (intro ext) (simp add: greedy_at_def same_model_Qsa, simp add: same_model_def)

lemma same_model_ok: "same_model st st' \<Longrightarrow> solver_ok st' = solver_ok st"
  by (simp add: same_model_def solver_ok_def)

lemma gs_sweep_length: "gs_sweep st v ss = Inr v' \<Longrightarrow> length v' = length v"
  by (induction ss arbitrary: v) (auto split: sum.splits if_splits)

lemma gs_step_length: "gs_step st = Inr r \<Longrightarrow> length (fst r) = length (V st)"
  by (auto simp: gs_step_def bindE_Inr_iff dest: gs_sweep_length)

lemma gs_loop_frame_aux:
  assumes "gs_loop st = Some r"
  shows "case r of Inl e \<Rightarrow> True
         | Inr st' \<Rightarrow> policy st' = policy st \<and> length (V st') = length (V st)"
proof (rule gs_loop.raw_induct[where P = "\<lambda>st r. case r of Inl e \<Rightarrow> True
         | Inr st' \<Rightarrow> policy st' = policy st \<and> length (V st') = length (V st)", OF _ assms], goal_cases)
  case (1 f st r)
  show ?case using 1(2)
    by (auto split: sum.splits if_splits dest!: 1(1) gs_step_length)
qed

lemma gs_loop_frame:
  "gs_loop st = Some (Inr st') \<Longrightarrow> policy st' = policy st \<and> length (V st') = length (V st)"
  by (drule gs_loop_frame_aux) simp

text \<open>
  Claim C4, as the code has it. When the sweep loop of a Gauss-Seidel run on a
  well-formed solver object returns, the sweeps have left the policy untouched and the
  final pass returns; it changes only \<open>V\<close> and the policy, each with one entry per
  state afterwards. Write \<open>W\<^sub>s\<close> for the value function in which the states before
  \<open>s\<close> already hold the values the final pass wrote and the states from \<open>s\<close> on hold
  the values the loop left. Then the final pass writes \<open>V[s] = max\<^sub>a Q(s,a)\<close> computed
  from \<open>W\<^sub>s\<close>, and \<open>policy[s]\<close> is the first greedy action for \<open>W\<^sub>s\<close>: the pass
  overwrites \<open>V[s]\<close> in place before it moves on to \<open>s + 1\<close>. The constructor on
  valid tables leaves such a well-formed object, with one value per state.
\<close>

theorem gs_final_pass_policy:
  assumes "solver_ok st" and "length (V st) = states st" and "gs_loop st = Some (Inr st1)"
  shows "policy st1 = policy st \<and>
         (\<exists>st2. GS_run st = Some (Inr st2) \<and> same_model st st2 \<and> iter st2 = iter st1 \<and>
            length (policy st2) = states st \<and> length (V st2) = states st \<and>
            (\<forall>s<states st.
               V st2 ! s = Max (Qsa st (take s (V st2) @ drop s (V st1)) s ` {..<A st}) \<and>
               greedy_at st (take s (V st2) @ drop s (V st1)) s (policy st2 ! s))) \<and>
         (\<forall>succ_s probability_s r n disc eps maxit iv s0 B.
            GS_init succ_s probability_s r n disc eps maxit iv = Inr s0 \<and>
            valid_tables n B succ_s probability_s \<longrightarrow>
            solver_ok s0 \<and> length (V s0) = states s0)"
proof -
  have c: "\<forall>succ_s probability_s r n disc eps maxit iv s0 B.
            GS_init succ_s probability_s r n disc eps maxit iv = Inr s0 \<and>
            valid_tables n B succ_s probability_s \<longrightarrow>
            solver_ok s0 \<and> length (V s0) = states s0"
    using GS_init_ok by blast
  have sm: "same_model st st1" using assms(3) by (rule gs_loop_same)
  have fr: "policy st1 = policy st" "length (V st1) = states st1"
    using gs_loop_frame[OF assms(3)] assms(2) sm by (simp_all add: same_model_def)
  have ok1: "solver_ok st1" using sm assms(1) by (simp add: same_model_ok)
  have n: "states st1 = states st" using sm by (simp add: same_model_def)
  have rows: "idx (split_succ_s st1) 0 = Inr (split_succ_s st1 ! 0)"
    "length (split_succ_s st1 ! 0) = states st1"
    using ok1 by (auto simp: solver_ok_def idx_def)
  from gs_final_upt[OF ok1 fr(2), of 0 "[]"]
  obtain v' ps where
    run: "gs_final st1 (V st1) [] [0..<states st1] = Inr (v', ps)"
    and lp: "length ps = states st1" and lv: "length v' = states st1"
    and gr: "\<forall>s<states st1. v' ! s = Max (Qsa st1 (take s v' @ drop s (V st1)) s ` {..<A st1}) \<and>
               greedy_at st1 (take s v' @ drop s (V st1)) s (ps ! s)"
    by auto
  let ?st2 = "st1\<lparr>V := v', policy := ps\<rparr>"
  have fin: "gs_finish st1 = Inr ?st2"
    by (simp add: gs_finish_def rows run)
  have r: "GS_run st = Some (Inr ?st2)"
    by (simp add: GS_run_def assms(3) fin)
  have A: "A st1 = A st" using sm by (simp add: same_model_def)
  have g: "\<forall>s<states st. v' ! s = Max (Qsa st (take s v' @ drop s (V st1)) s ` {..<A st}) \<and>
               greedy_at st (take s v' @ drop s (V st1)) s (ps ! s)"
    using gr n A same_model_greedy[OF sm] same_model_Qsa[OF sm] by simp
  have sm2: "same_model st ?st2" using sm by (simp add: same_model_def)
  show ?thesis
  proof (intro conjI exI[of _ ?st2])
    show "policy st1 = policy st" by (rule fr(1))
    show "GS_run st = Some (Inr ?st2)" by (rule r)
    show "same_model st ?st2" by (rule sm2)
    show "iter ?st2 = iter st1" by simp
    show "length (policy ?st2) = states st" using lp n by simp
    show "length (V ?st2) = states st" using lv n by simp
    show "\<forall>s<states st.
       V ?st2 ! s = Max (Qsa st (take s (V ?st2) @ drop s (V st1)) s ` {..<A st}) \<and>
       greedy_at st (take s (V ?st2) @ drop s (V st1)) s (policy ?st2 ! s)"
      using g by simp
    show "\<forall>succ_s probability_s r n disc eps maxit iv s0 B.
            GS_init succ_s probability_s r n disc eps maxit iv = Inr s0 \<and>
            valid_tables n B succ_s probability_s \<longrightarrow>
            solver_ok s0 \<and> length (V s0) = states s0"
      by (rule c)
  qed
qed

theorem gs_final_pass_policy_witness:
  "GS_init [[0, 0, 2], [0, 2, 2]] [[1, 1, 1], [1, 1, 1]] [1, 0, 3 / 2] 3 1 (1 / 100) 1 None = Inr ex_chain \<and>
   valid_tables 3 1 [[0, 0, 2], [0, 2, 2]] [[1, 1, 1], [1, 1, 1]] \<and>
   solver_ok ex_chain \<and> length (V ex_chain) = states ex_chain \<and>
   gs_loop ex_chain = Some (Inr (ex_chain\<lparr>iter := 1, V := [1, 1, 3 / 2]\<rparr>)) \<and>
   GS_run ex_chain = Some (Inr (ex_chain\<lparr>iter := 1, V := [2, 2, 3], policy := [0, 0, 0]\<rparr>)) \<and>
   policy (ex_chain\<lparr>iter := 1, V := [1, 1, 3 / 2]\<rparr>) = policy ex_chain \<and>
   (2 :: real) = Max (Qsa ex_chain [1, 1, 3 / 2] 0 ` {..<A ex_chain}) \<and>
   greedy_at ex_chain [1, 1, 3 / 2] 0 0 \<and>
   (2 :: real) = Max (Qsa ex_chain [2, 1, 3 / 2] 1 ` {..<A ex_chain}) \<and>
   greedy_at ex_chain [2, 1, 3 / 2] 1 0 \<and>
   (3 :: real) = Max (Qsa ex_chain [2, 2, 3 / 2] 2 ` {..<A ex_chain}) \<and>
   greedy_at ex_chain [2, 2, 3 / 2] 2 0"
proof -
  have l: "length (V ex_chain) = states ex_chain" by (simp add: ex_chain_def)
  have n: "(0::nat) < states ex_chain" "(1::nat) < states ex_chain" "(2::nat) < states ex_chain"
    by (simp_all add: ex_chain_def)
  from gs_final_pass_policy[OF ex_chain_ok l gs_loop_ex_chain]
  obtain st2 where p: "policy (ex_chain\<lparr>iter := 1, V := [1, 1, 3 / 2]\<rparr>) = policy ex_chain"
    and r: "GS_run ex_chain = Some (Inr st2)"
    and g: "\<forall>s<states ex_chain.
               V st2 ! s = Max (Qsa ex_chain (take s (V st2) @
                  drop s (V (ex_chain\<lparr>iter := 1, V := [1, 1, 3 / 2]\<rparr>))) s ` {..<A ex_chain}) \<and>
               greedy_at ex_chain (take s (V st2) @
                  drop s (V (ex_chain\<lparr>iter := 1, V := [1, 1, 3 / 2]\<rparr>))) s (policy st2 ! s)"
    by blast
  from r GS_run_ex_chain
  have st2: "st2 = ex_chain\<lparr>iter := 1, V := [2, 2, 3], policy := [0, 0, 0]\<rparr>" by simp
  from g[rule_format, OF n(1)] g[rule_format, OF n(2)] g[rule_format, OF n(3)]
  have "(2 :: real) = Max (Qsa ex_chain [1, 1, 3 / 2] 0 ` {..<A ex_chain}) \<and>
   greedy_at ex_chain [1, 1, 3 / 2] 0 0 \<and>
   (2 :: real) = Max (Qsa ex_chain [2, 1, 3 / 2] 1 ` {..<A ex_chain}) \<and>
   greedy_at ex_chain [2, 1, 3 / 2] 1 0 \<and>
   (3 :: real) = Max (Qsa ex_chain [2, 2, 3 / 2] 2 ` {..<A ex_chain}) \<and>
   greedy_at ex_chain [2, 2, 3 / 2] 2 0"
    unfolding st2 by (simp add: numeral_2_eq_2)
  moreover have "valid_tables 3 1 [[0, 0, 2], [0, 2, 2]] [[1, 1, 1], [1, 1, 1]]"
    by (simp add: valid_tables_def)
  ultimately show ?thesis
    using ex_chain_ok l gs_loop_ex_chain GS_run_ex_chain GS_init_ex_chain p by blast
qed

text \<open>
  The claim as stated (every policy entry is greedy for the value function the loop
  left) fails on the three-state example: the loop leaves \<open>V = [1, 1, 3/2]\<close>, for which
  action 1 is strictly better than action 0 at state 1, and the run returns action 0
  there, because the final pass has raised \<open>V[0]\<close> to 2 before it reaches state 1.
\<close>

theorem gs_final_pass_counterexample:
  "GS_init [[0, 0, 2], [0, 2, 2]] [[1, 1, 1], [1, 1, 1]] [1, 0, 3 / 2] 3 1 (1 / 100) 1 None = Inr ex_chain \<and>
   gs_loop ex_chain = Some (Inr (ex_chain\<lparr>iter := 1, V := [1, 1, 3 / 2]\<rparr>)) \<and>
   GS_run ex_chain = Some (Inr (ex_chain\<lparr>iter := 1, V := [2, 2, 3], policy := [0, 0, 0]\<rparr>)) \<and>
   Qsa ex_chain [1, 1, 3 / 2] 1 0 < Qsa ex_chain [1, 1, 3 / 2] 1 1 \<and>
   \<not> greedy_at ex_chain [1, 1, 3 / 2] 1 0"
proof -
  have lt: "Qsa ex_chain [1, 1, 3 / 2] 1 0 < Qsa ex_chain [1, 1, 3 / 2] 1 1"
    by (simp add: Qsa_def ex_chain_def)
  have "\<not> greedy_at ex_chain [1, 1, 3 / 2] 1 0"
  proof
    assume "greedy_at ex_chain [1, 1, 3 / 2] 1 0"
    then have "Qsa ex_chain [1, 1, 3 / 2] 1 0 = Max (Qsa ex_chain [1, 1, 3 / 2] 1 ` {..<A ex_chain})"
      by (auto simp: greedy_at_def)
    moreover have "Qsa ex_chain [1, 1, 3 / 2] 1 1 \<le> Max (Qsa ex_chain [1, 1, 3 / 2] 1 ` {..<A ex_chain})"
      by (rule Max_ge) (simp_all add: ex_chain_def)
    ultimately show False using lt by simp
  qed
  then show ?thesis
    using lt GS_init_ex_chain gs_loop_ex_chain GS_run_ex_chain by simp
qed

subsection \<open>The reward vector\<close>

lemma gs_finish_same: "gs_finish st = Inr st' \<Longrightarrow> same_model st st'"
  by (auto simp: gs_finish_def bindE_Inr_iff)

lemma GS_run_same: "GS_run st = Some (Inr st') \<Longrightarrow> same_model st st'"
  by (auto simp: GS_run_def split: option.splits sum.splits
      dest!: gs_loop_same gs_finish_same intro: same_model_trans)

lemma boundIter_R: "boundIter st eps = Inr st' \<Longrightarrow> R st' = R st \<and> A st' = A st \<and> states st' = states st"
  by (auto simp: boundIter_def bindE_Inr_iff Let_def split: if_splits)

lemma GS_init_R:
  assumes "GS_init succ_s probability_s r n disc eps maxit iv = Inr st"
  shows "R st = replicate (length succ_s) r \<and> A st = length succ_s \<and> states st = n \<and> length r = n"
proof -
  from assms obtain st0 where m: "MDP_init succ_s probability_s r n disc eps maxit = Inr st0"
    and rest: "R st = R st0 \<and> A st = A st0 \<and> states st = states st0"
    by (auto simp: GS_init_def bindE_Inr_iff split: if_splits dest!: boundIter_R)
  from MDP_init_Inr[OF m] rest show ?thesis by simp
qed

lemma PI_init_R:
  assumes "PI_init succ_s probability_s r n disc eps p0 maxit = Inr st"
  shows "R st = replicate (length succ_s) r \<and> A st = length succ_s \<and> states st = n \<and> length r = n"
proof -
  from assms obtain st0 where m: "MDP_init succ_s probability_s r n disc eps maxit = Inr st0"
    and rest: "R st = R st0 \<and> A st = A st0 \<and> states st = states st0"
    by (auto simp: PI_init_def bindE_Inr_iff)
  from MDP_init_Inr[OF m] rest show ?thesis by simp
qed

text \<open>
  Claim C9. A dense reward vector with one entry per state resolves to one copy of the
  vector per action, so \<open>reward[a][s] = r[s]\<close> for every action and state; the
  constructors store this table, and no run changes it.
\<close>

theorem vector_reward_resolved:
  assumes "length r = nstates"
  shows "computeVectorReward nA nstates r = Inr (replicate nA r) \<and>
         computeReward nA nstates r = Inr (replicate nA r) \<and>
         (\<forall>a<nA. \<forall>s<nstates. replicate nA r ! a ! s = r ! s) \<and>
         (\<forall>succ_s probability_s disc eps maxit iv st.
            GS_init succ_s probability_s r nstates disc eps maxit iv = Inr st \<longrightarrow>
            (\<forall>a<A st. \<forall>s<states st. R st ! a ! s = r ! s)) \<and>
         (\<forall>succ_s probability_s disc eps maxit p0 st.
            PI_init succ_s probability_s r nstates disc eps p0 maxit = Inr st \<longrightarrow>
            (\<forall>a<A st. \<forall>s<states st. R st ! a ! s = r ! s)) \<and>
         (\<forall>st st'. VI_run st = Some (Inr st') \<or> GS_run st = Some (Inr st') \<or>
                   PI_run st = Some (Inr st') \<longrightarrow> R st' = R st)"
proof (intro conjI allI impI)
  show "computeVectorReward nA nstates r = Inr (replicate nA r)"
    using assms by (simp add: computeVectorReward_def)
  then show "computeReward nA nstates r = Inr (replicate nA r)"
    by (simp add: computeReward_def)
  show "replicate nA r ! a ! s = r ! s" if "a < nA" for a s
    using that by simp
  show "R st ! a ! s = r ! s"
    if "GS_init succ_s probability_s r nstates disc eps maxit iv = Inr st" "a < A st"
    for succ_s probability_s disc eps maxit iv st a s
    using GS_init_R[OF that(1)] that(2) by simp
  show "R st ! a ! s = r ! s"
    if "PI_init succ_s probability_s r nstates disc eps p0 maxit = Inr st" "a < A st"
    for succ_s probability_s disc eps maxit p0 st a s
    using PI_init_R[OF that(1)] that(2) by simp
  show "R st' = R st"
    if "VI_run st = Some (Inr st') \<or> GS_run st = Some (Inr st') \<or> PI_run st = Some (Inr st')"
    for st st'
    using that vi_loop_same[of st st'] GS_run_same[of st st'] pi_loop_same[of st st']
    by (auto simp: VI_run_def PI_run_def same_model_def)
qed

theorem vector_reward_resolved_witness:
  "length [1, 0, 3 / 2 :: real] = 3 \<and>
   computeVectorReward 2 3 [1, 0, 3 / 2] = Inr [[1, 0, 3 / 2], [1, 0, 3 / 2]] \<and>
   R ex_chain = [[1, 0, 3 / 2], [1, 0, 3 / 2]] \<and>
   (\<exists>st'. GS_run ex_chain = Some (Inr st') \<and> R st' = [[1, 0, 3 / 2], [1, 0, 3 / 2]])"
proof -
  have l: "length [1, 0, 3 / 2 :: real] = 3" by simp
  have r: "R ex_chain = [[1, 0, 3 / 2], [1, 0, 3 / 2]]" by (simp add: ex_chain_def)
  from vector_reward_resolved[OF l, of 2] GS_run_ex_chain r
  show ?thesis by auto
qed

subsection \<open>Evaluating policy iteration on the examples\<close>

lemmas pi_eval_defs = PI_init_def check_policy0_def computePpolicyPRpolicy_def rectangular3_def
  fit_row_def assign_vals_def assign_rows_def eval_backup_def abs_variation_def eval_step_def
  eval_start_def evalPolicyIterative_def improve_def np_max_def

lemma PI_init_ex_single:
  "PI_init [[0]] [[1]] [5] 1 (1 / 2) (1 / 100) None 10 = Inr ex_single"
  by (simp add: ex_single_def pi_eval_defs eval_defs)

lemma eval_ex_single:
  "evalPolicyIterative (ex_single\<lparr>iter := 1\<rparr>) None (1 / 10000) 100 =
     Some (Inr (ex_single\<lparr>iter := 1, V := [5]\<rparr>))"
  unfolding evalPolicyIterative_def
  apply (simp add: ex_single_def pi_eval_defs eval_defs)
  apply (subst eval_loop.simps, simp add: ex_single_def pi_eval_defs eval_defs)
  apply (subst eval_loop.simps, simp add: ex_single_def pi_eval_defs eval_defs)
  done

lemma ex_single_iter: "iter ex_single + 1 = 1"
  by (simp add: ex_single_def)

lemma PI_run_ex_single:
  "PI_run ex_single = Some (Inr (ex_single\<lparr>iter := 1, V := [5]\<rparr>))"
  unfolding PI_run_def
  apply (subst pi_loop.simps)
  apply (simp add: ex_single_iter eval_ex_single)
  apply (simp add: ex_single_def pi_eval_defs eval_defs)
  done

text \<open>
  Claim C8, evaluated. On the single-state model with reward 5 and discount one half
  the Gauss-Seidel constructor raises \<^verbatim>\<open>OverflowError\<close>: one backup from the
  zero vector gives the vector \<open>[5]\<close>, whose span is 0, and \<^verbatim>\<open>_boundIter\<close>
  divides by it. The plain value-iteration constructor raises \<^verbatim>\<open>TypeError\<close>.
  Policy iteration returns with policy \<open>[0]\<close> and value \<open>[5]\<close>: with one action the
  policy-induced arrays have no entry per state, so the evaluation adds no
  discounted successor value.
\<close>

theorem single_state_solvers:
  "GS_init [[0]] [[1]] [5] 1 (1 / 2) (1 / 100) 10 None = Inl OverflowError \<and>
   VI_init () [5 :: real] () [[0]] (1 / 2) (1 / 100) 1000 None = Inl TypeError \<and>
   PI_init [[0]] [[1]] [5] 1 (1 / 2) (1 / 100) None 10 = Inr ex_single \<and>
   PI_run ex_single = Some (Inr (ex_single\<lparr>iter := 1, V := [5]\<rparr>))"
  using PI_init_ex_single PI_run_ex_single
  by (simp add: GS_init_def boundIter_def VI_init_def eval_defs)

subsection \<open>The value-iteration constructors\<close>

lemma ceiling_log2_150: "\<lceil>ln (1 / 150) / ln (1 / 2 :: real)\<rceil> = 8"
proof -
  have l2: "0 < ln (2 :: real)" by simp
  have e: "ln (1 / 150) / ln (1 / 2 :: real) = ln 150 / ln 2"
    by (simp add: ln_div)
  have p8: "ln (256 :: real) = 8 * ln 2"
    using ln_realpow[of "2 :: real" 8] by simp
  have p7: "ln (128 :: real) = 7 * ln 2"
    using ln_realpow[of "2 :: real" 7] by simp
  have "ln (150 :: real) \<le> ln 256" by (subst ln_le_cancel_iff) simp_all
  then have up: "ln 150 / ln (2 :: real) \<le> 8"
    using l2 p8 by (simp add: pos_divide_le_eq)
  have "ln (128 :: real) < ln 150" by (subst ln_less_cancel_iff) simp_all
  then have lo: "7 < ln 150 / ln (2 :: real)"
    using l2 p7 by (simp add: pos_less_divide_eq)
  have "\<lceil>ln 150 / ln (2 :: real)\<rceil> = 8"
    by (rule ceiling_unique) (use lo up in simp_all)
  then show ?thesis using e by simp
qed

lemma GS_init_ex_chain_half:
  "GS_init [[0, 0, 2], [0, 2, 2]] [[1, 1, 1], [1, 1, 1]] [1, 0, 3 / 2] 3 (1 / 2) (1 / 100) 1 None =
     Inr ex_chain_half"
  by (simp add: GS_init_def boundIter_def ex_chain_half_def eval_defs ceiling_log2_150)

text \<open>
  Claim C2, evaluated. The constructor of plain value iteration raises
  \<^verbatim>\<open>TypeError\<close> on every input. The Gauss-Seidel constructor runs the same
  \<^verbatim>\<open>_boundIter\<close>: whenever it returns with a discount below one, the stored
  \<^verbatim>\<open>max_iter\<close> is the ceiling of
  \<open>ln (\<epsilon> (1 - \<gamma>) / \<gamma> / span) / ln (\<gamma> \<cdot> 1)\<close>, where the span is that of one Bellman
  backup minus the initial value, whatever cap the caller passed, and the threshold is
  \<open>\<epsilon> (1 - \<gamma>) / \<gamma>\<close>.
\<close>

theorem value_iteration_constructor:
  "VI_init transitions reward shape succ_s0 disc eps maxit iv = Inl TypeError \<and>
   (\<forall>succ_s probability_s r n st.
      GS_init succ_s probability_s r n disc eps maxit iv = Inr st \<and> disc < 1 \<longrightarrow>
      (\<exists>st0 v0 pv d span.
         MDP_init succ_s probability_s r n disc eps maxit = Inr st0 \<and>
         v0 = (case iv of None \<Rightarrow> replicate n 0 | Some w \<Rightarrow> w) \<and>
         bellmanOperator (st0\<lparr>V := v0\<rparr>) None = Inr pv \<and>
         np_broadcast2 (-) (snd pv) v0 = Inr d \<and> getSpan d = Inr span \<and>
         max_iter st = \<lceil>ln (eps * (1 - disc) / disc / span) / ln (disc * 1)\<rceil> \<and>
         thresh st = eps * (1 - disc) / disc \<and> V st = v0))"
proof (intro conjI allI impI)
  show "VI_init transitions reward shape succ_s0 disc eps maxit iv = Inl TypeError"
    by (simp add: VI_init_def)
next
  fix succ_s probability_s r n st
  assume a: "GS_init succ_s probability_s r n disc eps maxit iv = Inr st \<and> disc < 1"
  then obtain st0 v0 st2 where
    m: "MDP_init succ_s probability_s r n disc eps maxit = Inr st0"
    and v0: "(case iv of None \<Rightarrow> Inr (replicate n 0)
              | Some w \<Rightarrow> if length w \<noteq> n then Inl ValueError else Inr w) = Inr v0"
    and b: "boundIter (st0\<lparr>V := v0\<rparr>) eps = Inr st2"
    and st: "st = st2\<lparr>thresh := eps * (1 - discount st2) / discount st2\<rparr>"
    using MDP_init_Inr(1)[of succ_s probability_s r n disc eps maxit]
    by (auto simp: GS_init_def bindE_Inr_iff split: if_splits)
  have d0: "discount st0 = disc" using MDP_init_Inr(1)[OF m] .
  have v0': "v0 = (case iv of None \<Rightarrow> replicate n 0 | Some w \<Rightarrow> w)"
    using v0 by (auto split: option.splits if_splits)
  from b obtain pv d span where
    bo: "bellmanOperator (st0\<lparr>V := v0\<rparr>) None = Inr pv"
    and bd: "np_broadcast2 (-) (snd pv) v0 = Inr d" and sp: "getSpan d = Inr span"
    and st2: "st2 = st0\<lparr>V := v0, max_iter := \<lceil>ln (eps * (1 - disc) / disc / span) / ln (disc * 1)\<rceil>\<rparr>"
    using d0 by (auto simp: boundIter_def bindE_Inr_iff Let_def split: if_splits)
  show "\<exists>st0 v0 pv d span.
         MDP_init succ_s probability_s r n disc eps maxit = Inr st0 \<and>
         v0 = (case iv of None \<Rightarrow> replicate n 0 | Some w \<Rightarrow> w) \<and>
         bellmanOperator (st0\<lparr>V := v0\<rparr>) None = Inr pv \<and>
         np_broadcast2 (-) (snd pv) v0 = Inr d \<and> getSpan d = Inr span \<and>
         max_iter st = \<lceil>ln (eps * (1 - disc) / disc / span) / ln (disc * 1)\<rceil> \<and>
         thresh st = eps * (1 - disc) / disc \<and> V st = v0"
    using m v0' bo bd sp st st2 d0 by (intro exI[of _ st0] exI[of _ v0] exI[of _ pv] exI[of _ d] exI[of _ span]) simp
qed

theorem value_iteration_constructor_witness:
  "GS_init [[0, 0, 2], [0, 2, 2]] [[1, 1, 1], [1, 1, 1]] [1, 0, 3 / 2] 3 (1 / 2) (1 / 100) 1 None =
     Inr ex_chain_half \<and> (1 / 2 :: real) < 1 \<and>
   max_iter ex_chain_half = 8 \<and> thresh ex_chain_half = 1 / 100 \<and>
   (\<exists>st0 v0 pv d span.
         MDP_init [[0, 0, 2], [0, 2, 2]] [[1, 1, 1], [1, 1, 1]] [1, 0, 3 / 2] 3 (1 / 2) (1 / 100) 1 = Inr st0 \<and>
         bellmanOperator (st0\<lparr>V := v0\<rparr>) None = Inr pv \<and>
         np_broadcast2 (-) (snd pv) v0 = Inr d \<and> getSpan d = Inr span \<and>
         max_iter ex_chain_half = \<lceil>ln (1 / 100 * (1 - 1 / 2) / (1 / 2) / span) / ln (1 / 2 * 1)\<rceil>)"
proof -
  have "(1 / 2 :: real) < 1" by simp
  with value_iteration_constructor[of "()" "()" "()" "[]" "1 / 2" "1 / 100" 1 None]
    GS_init_ex_chain_half
  have "\<exists>st0 v0 pv d span.
         MDP_init [[0, 0, 2], [0, 2, 2]] [[1, 1, 1], [1, 1, 1]] [1, 0, 3 / 2] 3 (1 / 2) (1 / 100) 1 = Inr st0 \<and>
         v0 = (case None of None \<Rightarrow> replicate 3 0 | Some w \<Rightarrow> w) \<and>
         bellmanOperator (st0\<lparr>V := v0\<rparr>) None = Inr pv \<and>
         np_broadcast2 (-) (snd pv) v0 = Inr d \<and> getSpan d = Inr span \<and>
         max_iter ex_chain_half = \<lceil>ln (1 / 100 * (1 - 1 / 2) / (1 / 2) / span) / ln (1 / 2 * 1)\<rceil> \<and>
         thresh ex_chain_half = 1 / 100 * (1 - 1 / 2) / (1 / 2) \<and> V ex_chain_half = v0"
    by blast
  then have "\<exists>st0 v0 pv d span.
         MDP_init [[0, 0, 2], [0, 2, 2]] [[1, 1, 1], [1, 1, 1]] [1, 0, 3 / 2] 3 (1 / 2) (1 / 100) 1 = Inr st0 \<and>
         bellmanOperator (st0\<lparr>V := v0\<rparr>) None = Inr pv \<and>
         np_broadcast2 (-) (snd pv) v0 = Inr d \<and> getSpan d = Inr span \<and>
         max_iter ex_chain_half = \<lceil>ln (1 / 100 * (1 - 1 / 2) / (1 / 2) / span) / ln (1 / 2 * 1)\<rceil>"
    by blast
  then show ?thesis
    using GS_init_ex_chain_half by (simp add: ex_chain_half_def)
qed

subsection \<open>A policy supplied to the policy-iteration constructor\<close>

lemma frac_zero_iff_int: "x - of_int \<lfloor>x\<rfloor> = 0 \<longleftrightarrow> x \<in> \<int>" for x :: real
  using frac_eq_0_iff[of x] by (simp add: frac_def)

lemma floor_self_iff_int: "x = of_int \<lfloor>x\<rfloor> \<longleftrightarrow> x \<in> \<int>" for x :: real
  using frac_zero_iff_int[of x] by auto

lemma check_policy0_iff:
  "check_policy0 nS p0 =
     (if length p0 = nS \<and> (\<forall>x\<in>set p0. x \<in> \<int> \<and> 0 \<le> x \<and> x < real nS)
      then Inr p0 else Inl AssertionError)"
  by (auto simp: check_policy0_def list_ex_iff list_all_iff floor_self_iff_int)

lemma MDP_init_ex_three:
  "MDP_init [[0, 1, 2], [0, 1, 2]] [[1, 1, 1], [1, 1, 1]] [1, 2, 3] 3 (1 / 2) 1 1 = Inr ex_three"
  by (simp add: ex_three_def eval_defs)

text \<open>
  Claim C5, as the code has it. When the base constructor succeeds, the constructor
  with a supplied \<open>policy0\<close> raises \<^verbatim>\<open>AssertionError\<close> exactly when \<open>policy0\<close>
  does not have length \<open>S\<close>, or an entry is not an integer, or an entry lies outside
  \<open>[0, S)\<close>; otherwise it stores \<open>policy0\<close> unchanged. \<open>S\<close> is the length of the
  first action's flat successor array, not the number of actions.
\<close>

theorem PI_init_policy0:
  assumes "MDP_init succ_s probability_s r n disc eps maxit = Inr st0"
  shows "S st0 = length (hd succ_s) \<and> A st0 = length succ_s \<and>
         PI_init succ_s probability_s r n disc eps (Some p0) maxit =
           (if length p0 = S st0 \<and> (\<forall>x\<in>set p0. x \<in> \<int> \<and> 0 \<le> x \<and> x < real (S st0))
            then Inr (st0\<lparr>policy := p0, V := replicate n 0\<rparr>)
            else Inl AssertionError)"
  using MDP_init_Inr(8,10)[OF assms] assms
  by (simp add: PI_init_def check_policy0_iff)

theorem PI_init_policy0_witness:
  "MDP_init [[0, 1, 2], [0, 1, 2]] [[1, 1, 1], [1, 1, 1]] [1, 2, 3] 3 (1 / 2) 1 1 = Inr ex_three \<and>
   S ex_three = 3 \<and>
   PI_init [[0, 1, 2], [0, 1, 2]] [[1, 1, 1], [1, 1, 1]] [1, 2, 3] 3 (1 / 2) 1 (Some [0, 1, 1]) 1 =
     Inr (ex_three\<lparr>policy := [0, 1, 1], V := [0, 0, 0]\<rparr>) \<and>
   PI_init [[0, 1, 2], [0, 1, 2]] [[1, 1, 1], [1, 1, 1]] [1, 2, 3] 3 (1 / 2) 1 (Some [0, 3, 1]) 1 =
     Inl AssertionError \<and>
   PI_init [[0, 1, 2], [0, 1, 2]] [[1, 1, 1], [1, 1, 1]] [1, 2, 3] 3 (1 / 2) 1 (Some [0, 1 / 2, 1]) 1 =
     Inl AssertionError \<and>
   PI_init [[0, 1, 2], [0, 1, 2]] [[1, 1, 1], [1, 1, 1]] [1, 2, 3] 3 (1 / 2) 1 (Some [0, 1]) 1 =
     Inl AssertionError"
proof -
  have s: "S ex_three = 3" by (simp add: ex_three_def)
  have h: "(1 / 2 :: real) \<notin> \<int>"
    using frac_zero_iff_int[of "1 / 2 :: real"] by simp
  show ?thesis
    using PI_init_policy0[OF MDP_init_ex_three, of "[0, 1, 1]"]
      PI_init_policy0[OF MDP_init_ex_three, of "[0, 3, 1]"]
      PI_init_policy0[OF MDP_init_ex_three, of "[0, 1 / 2, 1]"]
      PI_init_policy0[OF MDP_init_ex_three, of "[0, 1]"]
      MDP_init_ex_three s h
    by simp
qed

text \<open>
  The claim as stated bounds the entries by the number of actions. With two actions
  and \<open>S = 3\<close> the constructor accepts the policy \<open>[2, 2, 2]\<close>, whose entries are no
  actions.
\<close>

theorem PI_init_policy0_counterexample:
  "PI_init [[0, 1, 2], [0, 1, 2]] [[1, 1, 1], [1, 1, 1]] [1, 2, 3] 3 (1 / 2) 1 (Some [2, 2, 2]) 1 =
     Inr (ex_three\<lparr>policy := [2, 2, 2], V := [0, 0, 0]\<rparr>) \<and>
   A ex_three = 2 \<and> \<not> (2 :: real) < real (A ex_three)"
  by (simp add: ex_three_def pi_eval_defs eval_defs)

subsection \<open>The evaluation loop of policy iteration\<close>

lemma backups_Suc_end:
  "backups st Rp Ps Pp (Suc k) v =
     bindE (backups st Rp Ps Pp k v) (eval_backup st Rp Ps Pp)"
proof (induction k arbitrary: v)
  case 0
  show ?case by (cases "eval_backup st Rp Ps Pp v") simp_all
next
  case (Suc k)
  show ?case
  proof (cases "eval_backup st Rp Ps Pp v")
    case (Inl e)
    then show ?thesis by simp
  next
    case (Inr w)
    then show ?thesis using Suc[of w] by simp
  qed
qed

lemma eval_step_Inr:
  "eval_step st Rp Ps Pp v = Inr r \<Longrightarrow> eval_backup st Rp Ps Pp v = Inr (fst r)"
  by (auto simp: eval_step_def bindE_Inr_iff)

lemma stop_test_shift:
  assumes "eval_backup st Rp Ps Pp v = Inr w" "1 \<le> j"
  shows "stop_test st Rp Ps Pp eps v (Suc j) = stop_test st Rp Ps Pp eps w j"
proof -
  obtain i where j: "j = Suc i" using assms(2) by (cases j) auto
  show ?thesis using assms(1) by (simp add: stop_test_def j)
qed

lemma eval_loop_result_aux:
  assumes "eval_loop st Rp Ps Pp eps maxit itr v = Some r"
  shows "case r of Inl e \<Rightarrow> True
         | Inr (itr', v') \<Rightarrow>
             (\<exists>k\<ge>1. itr' = itr + int k \<and> backups st Rp Ps Pp k v = Inr v' \<and>
                (stop_test st Rp Ps Pp eps v k \<or> itr' = maxit) \<and>
                (\<forall>j. 1 \<le> j \<and> j < k \<longrightarrow>
                   \<not> stop_test st Rp Ps Pp eps v j \<and> itr + int j \<noteq> maxit))"
proof (rule eval_loop.raw_induct[where P = "\<lambda>st Rp Ps Pp eps maxit itr v r.
         case r of Inl e \<Rightarrow> True
         | Inr (itr', v') \<Rightarrow>
             (\<exists>k\<ge>1. itr' = itr + int k \<and> backups st Rp Ps Pp k v = Inr v' \<and>
                (stop_test st Rp Ps Pp eps v k \<or> itr' = maxit) \<and>
                (\<forall>j. 1 \<le> j \<and> j < k \<longrightarrow>
                   \<not> stop_test st Rp Ps Pp eps v j \<and> itr + int j \<noteq> maxit))", OF _ assms], goal_cases)
  case (1 f st Rp Ps Pp eps maxit itr v r)
  show ?case
  proof (cases r)
    case (Inl e)
    then show ?thesis by simp
  next
    case (Inr res)
    obtain itr' v' where res: "res = (itr', v')" by (cases res)
    from 1(2) Inr obtain es where es: "eval_step st Rp Ps Pp v = Inr es"
      by (auto split: sum.splits)
    have eb: "eval_backup st Rp Ps Pp v = Inr (fst es)" using es by (rule eval_step_Inr)
    have d: "discount st \<noteq> 0" using 1(2) Inr es by (auto split: if_splits)
    let ?thr = "((1 - discount st) / discount st) * eps"
    have st1: "stop_test st Rp Ps Pp eps v 1 = (snd es < ?thr)"
      by (simp add: stop_test_def es)
    consider (stop) "snd es < ?thr" | (cap) "\<not> snd es < ?thr" "itr + 1 = maxit"
      | (go) "\<not> snd es < ?thr" "itr + 1 \<noteq> maxit" by blast
    then show ?thesis
    proof cases
      case stop
      then have "itr' = itr + 1" "v' = fst es" using 1(2) Inr res es d by auto
      then show ?thesis using Inr res eb st1 stop
        by (auto intro!: exI[of _ 1])
    next
      case cap
      then have "itr' = itr + 1" "v' = fst es" using 1(2) Inr res es d by auto
      then show ?thesis using Inr res eb cap
        by (auto intro!: exI[of _ 1])
    next
      case go
      then have rec: "f st Rp Ps Pp eps maxit (itr + 1) (fst es) = Some (Inr (itr', v'))"
        using 1(2) Inr res es d by auto
      from 1(1)[OF rec] obtain k where k: "1 \<le> k" "itr' = itr + 1 + int k"
        "backups st Rp Ps Pp k (fst es) = Inr v'"
        "stop_test st Rp Ps Pp eps (fst es) k \<or> itr' = maxit"
        "\<forall>j. 1 \<le> j \<and> j < k \<longrightarrow>
            \<not> stop_test st Rp Ps Pp eps (fst es) j \<and> itr + 1 + int j \<noteq> maxit"
        by auto
      have "\<not> stop_test st Rp Ps Pp eps v j \<and> itr + int j \<noteq> maxit"
        if j: "1 \<le> j \<and> j < Suc k" for j
      proof (cases "j = 1")
        case True
        then show ?thesis using st1 go by simp
      next
        case False
        then obtain i where i: "j = Suc i" "1 \<le> i" "i < k" using j by (cases j) auto
        then show ?thesis using k(5) stop_test_shift[OF eb, of i eps] by auto
      qed
      moreover have "stop_test st Rp Ps Pp eps v (Suc k) \<or> itr' = maxit"
        using k(4) stop_test_shift[OF eb k(1), of eps] by simp
      moreover have "backups st Rp Ps Pp (Suc k) v = Inr v'" using eb k(3) by simp
      ultimately show ?thesis using Inr res k(2)
        by (auto intro!: exI[of _ "Suc k"])
    qed
  qed
qed

lemma eval_loop_result:
  assumes "eval_loop st Rp Ps Pp eps maxit itr v = Some (Inr (itr', v'))"
  shows "\<exists>k\<ge>1. itr' = itr + int k \<and> backups st Rp Ps Pp k v = Inr v' \<and>
           (stop_test st Rp Ps Pp eps v k \<or> itr' = maxit) \<and>
           (\<forall>j. 1 \<le> j \<and> j < k \<longrightarrow> \<not> stop_test st Rp Ps Pp eps v j \<and> itr + int j \<noteq> maxit)"
  using eval_loop_result_aux[OF assms] by simp

lemma eval_loop_terminates:
  "itr < maxit \<Longrightarrow> \<exists>r. eval_loop st Rp Ps Pp eps maxit itr v = Some r"
proof (induction "nat (maxit - itr)" arbitrary: itr v)
  case 0
  then show ?case by simp
next
  case (Suc d)
  show ?case
  proof (cases "eval_step st Rp Ps Pp v")
    case (Inl e)
    then show ?thesis by (subst eval_loop.simps) simp
  next
    case (Inr es)
    show ?thesis
    proof (cases "discount st = 0 \<or> snd es < ((1 - discount st) / discount st) * eps \<or> itr + 1 = maxit")
      case True
      then show ?thesis using Inr by (subst eval_loop.simps) auto
    next
      case False
      then have "d = nat (maxit - (itr + 1))" "itr + 1 < maxit" using Suc.hyps(2) Suc.prems by auto
      from Suc.hyps(1)[OF this] obtain r where
        "eval_loop st Rp Ps Pp eps maxit (itr + 1) (fst es) = Some r" by blast
      then show ?thesis using Inr False by (subst eval_loop.simps) auto
    qed
  qed
qed

lemma evalPolicyIterative_terminates:
  "\<exists>r. evalPolicyIterative st V0 eps 100 = Some r"
proof (cases "eval_start st V0")
  case (Inl e)
  then show ?thesis by (simp add: evalPolicyIterative_def)
next
  case (Inr x)
  obtain pV Rp Ps Pp where x: "x = (pV, Rp, Ps, Pp)" by (cases x)
  from eval_loop_terminates[of 0 100 st Rp Ps Pp eps pV]
  obtain r where "eval_loop st Rp Ps Pp eps 100 0 pV = Some r" by auto
  then show ?thesis using Inr x
    by (cases r) (auto simp: evalPolicyIterative_def)
qed

text \<open>
  Claim C3, as the code has it. A run of policy iteration starts every turn with the
  evaluation called with \<^verbatim>\<open>epsilon = 0.0001\<close> and \<^verbatim>\<open>max_iter = 100\<close>: the
  defaults of \<^verbatim>\<open>_evalPolicyIterative\<close>, not the \<open>epsilon\<close> of the constructor. That
  evaluation always ends. When it returns, it has made \<open>k\<close> synchronous backups from the
  zero vector with \<open>1 \<le> k \<le> 100\<close>; the test
  \<open>max|\<Delta>V| < ((1 - \<gamma>) / \<gamma>) \<cdot> 0.0001\<close> holds at turn \<open>k\<close> or \<open>k = 100\<close>, and the test
  holds at no earlier turn.
\<close>

theorem eval_phase_stops:
  "PI_run st =
     (case evalPolicyIterative (st\<lparr>iter := iter st + 1\<rparr>) None (1 / 10000) 100 of
        None \<Rightarrow> None
      | Some (Inl e) \<Rightarrow> Some (Inl e)
      | Some (Inr st2) \<Rightarrow>
          (case improve st2 of
             Inl e \<Rightarrow> Some (Inl e)
           | Inr r \<Rightarrow>
               (if snd r = 0 then Some (Inr st2)
                else if iter st2 = max_iter st2 then Some (Inr st2)
                else PI_run (st2\<lparr>policy := fst r\<rparr>)))) \<and>
   (\<exists>r. evalPolicyIterative st None (1 / 10000) 100 = Some r) \<and>
   (\<forall>st'. evalPolicyIterative st None (1 / 10000) 100 = Some (Inr st') \<longrightarrow>
      (\<exists>Rp Ps Pp k.
         computePpolicyPRpolicy st = Inr (Rp, Ps, Pp) \<and> 1 \<le> k \<and> k \<le> 100 \<and>
         backups st Rp Ps Pp k (replicate (states st) 0) = Inr (V st') \<and>
         (stop_test st Rp Ps Pp (1 / 10000) (replicate (states st) 0) k \<or> k = 100) \<and>
         (\<forall>j. 1 \<le> j \<and> j < k \<longrightarrow>
            \<not> stop_test st Rp Ps Pp (1 / 10000) (replicate (states st) 0) j)))"
proof (intro conjI allI impI)
  show "PI_run st =
     (case evalPolicyIterative (st\<lparr>iter := iter st + 1\<rparr>) None (1 / 10000) 100 of
        None \<Rightarrow> None
      | Some (Inl e) \<Rightarrow> Some (Inl e)
      | Some (Inr st2) \<Rightarrow>
          (case improve st2 of
             Inl e \<Rightarrow> Some (Inl e)
           | Inr r \<Rightarrow>
               (if snd r = 0 then Some (Inr st2)
                else if iter st2 = max_iter st2 then Some (Inr st2)
                else PI_run (st2\<lparr>policy := fst r\<rparr>))))"
    unfolding PI_run_def by (subst pi_loop.simps) (rule refl)
  show "\<exists>r. evalPolicyIterative st None (1 / 10000) 100 = Some r"
    by (rule evalPolicyIterative_terminates)
next
  fix st'
  assume a: "evalPolicyIterative st None (1 / 10000) 100 = Some (Inr st')"
  let ?z = "replicate (states st) (0 :: real)"
  from a obtain Rp Ps Pp res where
    c: "computePpolicyPRpolicy st = Inr (Rp, Ps, Pp)"
    and l: "eval_loop st Rp Ps Pp (1 / 10000) 100 0 ?z = Some (Inr res)"
    and v: "V st' = snd res"
    by (auto simp: evalPolicyIterative_def eval_start_def bindE_Inr_iff
        split: sum.splits option.splits prod.splits)
  obtain itr' v' where res: "res = (itr', v')" by (cases res)
  from eval_loop_result[OF l[unfolded res]] obtain k where
    k: "1 \<le> k" "itr' = 0 + int k" "backups st Rp Ps Pp k ?z = Inr v'"
    "stop_test st Rp Ps Pp (1 / 10000) ?z k \<or> itr' = 100"
    "\<forall>j. 1 \<le> j \<and> j < k \<longrightarrow> \<not> stop_test st Rp Ps Pp (1 / 10000) ?z j \<and> 0 + int j \<noteq> 100"
    by blast
  have "k \<le> 100"
  proof (rule ccontr)
    assume "\<not> k \<le> 100"
    then have "1 \<le> (100 :: nat) \<and> 100 < k" by simp
    with k(5) have "0 + int 100 \<noteq> 100" by blast
    then show False by simp
  qed
  moreover have "stop_test st Rp Ps Pp (1 / 10000) ?z k \<or> k = 100" using k(2,4) by auto
  ultimately show "\<exists>Rp Ps Pp k.
         computePpolicyPRpolicy st = Inr (Rp, Ps, Pp) \<and> 1 \<le> k \<and> k \<le> 100 \<and>
         backups st Rp Ps Pp k ?z = Inr (V st') \<and>
         (stop_test st Rp Ps Pp (1 / 10000) ?z k \<or> k = 100) \<and>
         (\<forall>j. 1 \<le> j \<and> j < k \<longrightarrow> \<not> stop_test st Rp Ps Pp (1 / 10000) ?z j)"
    using c k(1,3,5) v res by (intro exI[of _ Rp] exI[of _ Ps] exI[of _ Pp] exI[of _ k]) auto
qed

lemma PI_init_ex_tenth:
  "PI_init [[0], [0]] [[1], [1]] [5] 1 (1 / 10) (1 / 100) None 10 = Inr ex_tenth"
  by (simp add: ex_tenth_def pi_eval_defs eval_defs)

lemma policy_arrays_ex_tenth:
  "computePpolicyPRpolicy (ex_tenth\<lparr>iter := 1\<rparr>) = Inr ([5], [[0]], [[1]])"
  by (simp add: ex_tenth_def pi_eval_defs eval_defs)

lemma eval_ex_tenth:
  "evalPolicyIterative (ex_tenth\<lparr>iter := 1\<rparr>) None (1 / 10000) 100 =
     Some (Inr (ex_tenth\<lparr>iter := 1, V := [11111 / 2000]\<rparr>))"
  unfolding evalPolicyIterative_def
  apply (simp add: ex_tenth_def pi_eval_defs eval_defs)
  apply (subst eval_loop.simps, simp add: ex_tenth_def pi_eval_defs eval_defs)
  apply (subst eval_loop.simps, simp add: ex_tenth_def pi_eval_defs eval_defs)
  apply (subst eval_loop.simps, simp add: ex_tenth_def pi_eval_defs eval_defs)
  apply (subst eval_loop.simps, simp add: ex_tenth_def pi_eval_defs eval_defs)
  apply (subst eval_loop.simps, simp add: ex_tenth_def pi_eval_defs eval_defs)
  done

theorem eval_phase_stops_witness:
  "evalPolicyIterative (ex_tenth\<lparr>iter := 1\<rparr>) None (1 / 10000) 100 =
     Some (Inr (ex_tenth\<lparr>iter := 1, V := [11111 / 2000]\<rparr>)) \<and>
   (\<exists>Rp Ps Pp k.
      computePpolicyPRpolicy (ex_tenth\<lparr>iter := 1\<rparr>) = Inr (Rp, Ps, Pp) \<and> 1 \<le> k \<and> k \<le> 100 \<and>
      backups (ex_tenth\<lparr>iter := 1\<rparr>) Rp Ps Pp k [0] = Inr [11111 / 2000] \<and>
      (stop_test (ex_tenth\<lparr>iter := 1\<rparr>) Rp Ps Pp (1 / 10000) [0] k \<or> k = 100))"
proof -
  have n: "replicate (states (ex_tenth\<lparr>iter := 1\<rparr>)) (0 :: real) = [0]"
    by (simp add: ex_tenth_def)
  from eval_phase_stops[of "ex_tenth\<lparr>iter := 1\<rparr>"] eval_ex_tenth
  have "\<exists>Rp Ps Pp k.
         computePpolicyPRpolicy (ex_tenth\<lparr>iter := 1\<rparr>) = Inr (Rp, Ps, Pp) \<and> 1 \<le> k \<and> k \<le> 100 \<and>
         backups (ex_tenth\<lparr>iter := 1\<rparr>) Rp Ps Pp k (replicate (states (ex_tenth\<lparr>iter := 1\<rparr>)) 0) =
           Inr (V (ex_tenth\<lparr>iter := 1, V := [11111 / 2000]\<rparr>)) \<and>
         (stop_test (ex_tenth\<lparr>iter := 1\<rparr>) Rp Ps Pp (1 / 10000)
            (replicate (states (ex_tenth\<lparr>iter := 1\<rparr>)) 0) k \<or> k = 100)"
    by blast
  then show ?thesis using eval_ex_tenth unfolding n by simp
qed

text \<open>
  The claim as stated takes the threshold from the constructor's \<open>epsilon\<close>. With
  discount one tenth and \<open>epsilon\<close> one hundredth that test holds at the third turn,
  where the value is \<open>111/20\<close>; the evaluation goes on to the fifth turn and returns
  \<open>11111/2000\<close>, because the test with \<open>0.0001\<close> fails at the third turn.
\<close>

theorem eval_phase_stops_counterexample:
  "PI_init [[0], [0]] [[1], [1]] [5] 1 (1 / 10) (1 / 100) None 10 = Inr ex_tenth \<and>
   discount ex_tenth = 1 / 10 \<and> epsilon ex_tenth = 1 / 100 \<and>
   computePpolicyPRpolicy (ex_tenth\<lparr>iter := 1\<rparr>) = Inr ([5], [[0]], [[1]]) \<and>
   stop_test (ex_tenth\<lparr>iter := 1\<rparr>) [5] [[0]] [[1]] (epsilon ex_tenth) [0] 3 \<and>
   backups (ex_tenth\<lparr>iter := 1\<rparr>) [5] [[0]] [[1]] 3 [0] = Inr [111 / 20] \<and>
   evalPolicyIterative (ex_tenth\<lparr>iter := 1\<rparr>) None (1 / 10000) 100 =
     Some (Inr (ex_tenth\<lparr>iter := 1, V := [11111 / 2000]\<rparr>)) \<and>
   backups (ex_tenth\<lparr>iter := 1\<rparr>) [5] [[0]] [[1]] 5 [0] = Inr [11111 / 2000] \<and>
   \<not> stop_test (ex_tenth\<lparr>iter := 1\<rparr>) [5] [[0]] [[1]] (1 / 10000) [0] 3"
proof -
  have "stop_test (ex_tenth\<lparr>iter := 1\<rparr>) [5] [[0]] [[1]] (epsilon ex_tenth) [0] 3"
    by (simp add: stop_test_def numeral_eq_Suc ex_tenth_def pi_eval_defs eval_defs)
  moreover have "\<not> stop_test (ex_tenth\<lparr>iter := 1\<rparr>) [5] [[0]] [[1]] (1 / 10000) [0] 3"
    by (simp add: stop_test_def numeral_eq_Suc ex_tenth_def pi_eval_defs eval_defs)
  moreover have "backups (ex_tenth\<lparr>iter := 1\<rparr>) [5] [[0]] [[1]] 3 [0] = Inr [111 / 20]"
    "backups (ex_tenth\<lparr>iter := 1\<rparr>) [5] [[0]] [[1]] 5 [0] = Inr [11111 / 2000]"
    by (simp_all add: numeral_eq_Suc ex_tenth_def pi_eval_defs eval_defs)
  moreover have "discount ex_tenth = 1 / 10" "epsilon ex_tenth = 1 / 100"
    by (simp_all add: ex_tenth_def)
  ultimately show ?thesis
    using PI_init_ex_tenth policy_arrays_ex_tenth eval_ex_tenth by blast
qed

subsection \<open>The policy-induced arrays\<close>

lemma put_all_length [simp]: "length (put_all t ind xs) = length t"
  by (induction t ind xs rule: put_all.induct) simp_all

lemma put_all_set: "x \<in> set (put_all t ind xs) \<Longrightarrow> x \<in> set t \<or> x \<in> set xs"
proof (induction t ind xs rule: put_all.induct)
  case (1 target i "is" y ys)
  from "1.prems" have "x \<in> set (put_all (target[i := y]) is ys)" by simp
  from "1.IH"[OF this] show ?case
    using set_update_subset_insert[of target i y] by auto
qed simp_all

lemma assign_vals_Inr:
  assumes "assign_vals t ind vals = Inr t'"
  shows "length t' = length t" "\<And>x. x \<in> set t' \<Longrightarrow> x \<in> set t \<or> x \<in> set vals"
  using assms put_all_set[of _ t ind vals]
  by (auto simp: assign_vals_def split: if_splits)

lemma fit_row_Inr: "fit_row w row = Inr r \<Longrightarrow> length r = w \<and> (set r \<subseteq> set row)"
  by (cases row) (auto simp: fit_row_def split: if_splits)

lemma assign_rows_Inr:
  assumes "assign_rows w t ind rows = Inr t'"
  shows "length t' = length t"
    "\<And>r. r \<in> set t' \<Longrightarrow> r \<in> set t \<or> (length r = w \<and> (\<exists>row\<in>set rows. set r \<subseteq> set row))"
proof -
  from assms obtain rows' where f: "mapM (fit_row w) rows = Inr rows'"
    and a: "assign_vals t ind rows' = Inr t'"
    by (auto simp: assign_rows_def bindE_Inr_iff)
  show "length t' = length t" using assign_vals_Inr(1)[OF a] .
  fix r assume "r \<in> set t'"
  then have "r \<in> set t \<or> r \<in> set rows'" using assign_vals_Inr(2)[OF a] by blast
  moreover have "length r = w \<and> (\<exists>row\<in>set rows. set r \<subseteq> set row)" if "r \<in> set rows'"
  proof -
    from that obtain i where i: "i < length rows'" "rows' ! i = r" by (auto simp: in_set_conv_nth)
    have li: "i < length rows" using i mapM_length[OF f] by simp
    from mapM_nth[OF f li] i have "fit_row w (rows ! i) = Inr r" by simp
    from fit_row_Inr[OF this] li show ?thesis by auto
  qed
  ultimately show "r \<in> set t \<or> (length r = w \<and> (\<exists>row\<in>set rows. set r \<subseteq> set row))"
    by blast
qed

lemma policy_rows_shape:
  "policy_rows st as acc = Inr acc' \<Longrightarrow> acc_shape n (A st - 1) acc \<Longrightarrow> acc_shape n (A st - 1) acc'"
proof (induction as arbitrary: acc)
  case Nil
  then show ?case by simp
next
  case (Cons aa as)
  let ?ind = "filter (\<lambda>i. policy st ! i = real aa) [0..<length (policy st)]"
  show ?case
  proof (cases "?ind = []")
    case True
    then show ?thesis using Cons by (simp add: Let_def)
  next
    case False
    with Cons.prems(1) obtain acc1 rows Ps prows Pp rs Rp where
      ar: "assign_rows (A st - 1) (fst (snd acc)) ?ind rows = Inr Ps"
      and ap: "assign_rows (A st - 1) (snd (snd acc)) ?ind prows = Inr Pp"
      and av: "assign_vals (fst acc) ?ind rs = Inr Rp"
      and acc1: "acc1 = (Rp, Ps, Pp)" and rec: "policy_rows st as acc1 = Inr acc'"
      by (auto simp: Let_def bindE_Inr_iff split: sum.splits)
    have "acc_shape n (A st - 1) acc1"
      using Cons.prems(2) assign_rows_Inr[OF ar] assign_rows_Inr[OF ap] assign_vals_Inr(1)[OF av]
      unfolding acc_shape_def acc1 by (simp, blast)
    then show ?thesis using Cons.IH[OF rec] by simp
  qed
qed

lemma computePpolicyPRpolicy_shape:
  assumes "computePpolicyPRpolicy st = Inr (Rp, Ps, Pp)"
  shows "length Rp = states st \<and> length Ps = states st \<and> length Pp = states st \<and>
         (\<forall>r\<in>set Ps. length r = A st - 1) \<and> (\<forall>r\<in>set Pp. length r = A st - 1)"
proof -
  let ?acc0 = "(replicate (states st) (0 :: real),
              replicate (states st) (replicate (A st - 1) (0 :: int)),
              replicate (states st) (replicate (A st - 1) (0 :: real)))"
  from assms have run: "policy_rows st [0..<A st] ?acc0 = Inr (Rp, Ps, Pp)"
    by (auto simp: computePpolicyPRpolicy_def split: if_splits)
  have "acc_shape (states st) (A st - 1) ?acc0" by (simp add: acc_shape_def)
  from policy_rows_shape[OF run this] show ?thesis by (simp add: acc_shape_def)
qed

lemma mapM_first_fails: "xs \<noteq> [] \<Longrightarrow> (\<And>x. x \<in> set xs \<Longrightarrow> f x = Inl e) \<Longrightarrow> mapM f xs = Inl e"
  by (cases xs) auto

lemma policy_rows_fail:
  assumes len: "length (split_succ_s st) = A st" "length (policy st) = n"
    and rows: "\<forall>a<A st. length (split_succ_s st ! a) = n \<and>
                 (\<forall>s<n. length (split_succ_s st ! a ! s) = B)"
    and B: "B \<noteq> A st - 1" "B \<noteq> 1"
  shows "\<forall>aa\<in>set as. aa < A st \<Longrightarrow> \<exists>aa\<in>set as. uses_action st aa \<Longrightarrow>
         policy_rows st as acc = Inl ValueError"
proof (induction as arbitrary: acc)
  case Nil
  then show ?case by simp
next
  case (Cons aa as)
  let ?ind = "filter (\<lambda>i. policy st ! i = real aa) [0..<length (policy st)]"
  show ?case
  proof (cases "?ind = []")
    case True
    then have "\<not> uses_action st aa" by (simp add: uses_action_def)
    with Cons.prems have "\<exists>aa\<in>set as. uses_action st aa" by auto
    with Cons.IH Cons.prems(1) True show ?thesis by (simp add: Let_def)
  next
    case False
    have aa: "aa < A st" using Cons.prems(1) by simp
    have ix: "idx (split_succ_s st) aa = Inr (split_succ_s st ! aa)"
      using aa len by (simp add: idx_def)
    have inds: "\<forall>i\<in>set ?ind. i < n" using len by auto
    have g: "mapM (idx (split_succ_s st ! aa)) ?ind = Inr (map ((!) (split_succ_s st ! aa)) ?ind)"
      by (rule mapM_pure) (use inds rows aa in \<open>auto simp: idx_def\<close>)
    have "mapM (fit_row (A st - 1)) (map ((!) (split_succ_s st ! aa)) ?ind) = Inl ValueError"
    proof (rule mapM_first_fails)
      show "map ((!) (split_succ_s st ! aa)) ?ind \<noteq> []" using False by simp
      fix x assume "x \<in> set (map ((!) (split_succ_s st ! aa)) ?ind)"
      then obtain i where "i \<in> set ?ind" "x = split_succ_s st ! aa ! i" by auto
      then have "length x = B" using inds rows aa by auto
      then show "fit_row (A st - 1) x = Inl ValueError" using B by (simp add: fit_row_def)
    qed
    then have "assign_rows (A st - 1) (fst (snd acc)) ?ind (map ((!) (split_succ_s st ! aa)) ?ind)
                 = Inl ValueError"
      by (simp add: assign_rows_def)
    then show ?thesis using False ix g by (simp add: Let_def)
  qed
qed

lemma pi_ok_rectangular:
  assumes "pi_ok B st"
  shows "rectangular3 (split_succ_s st)" "rectangular3 (split_probability st)"
proof -
  from assms have ok: "solver_ok st" and B: "\<forall>a<A st. \<forall>s<states st. length (split_succ_s st ! a ! s) = B"
    by (simp_all add: pi_ok_def)
  have la: "length (split_succ_s st) = A st" "length (split_probability st) = A st" "0 < A st"
    using ok by (simp_all add: solver_ok_def)
  have ls: "\<And>a. a < A st \<Longrightarrow> length (split_succ_s st ! a) = states st"
    and lp: "\<And>a. a < A st \<Longrightarrow> length (split_probability st ! a) = states st"
    and eq: "\<And>a s. a < A st \<Longrightarrow> s < states st \<Longrightarrow>
               length (split_probability st ! a ! s) = length (split_succ_s st ! a ! s)"
    using ok by (simp_all add: solver_ok_def)
  have rect: "rectangular3 xs"
    if l: "length xs = A st" and m: "\<And>a. a < A st \<Longrightarrow> length (xs ! a) = states st"
      and r: "\<And>a s. a < A st \<Longrightarrow> s < states st \<Longrightarrow> length (xs ! a ! s) = B"
    for xs :: "'b list list list"
  proof -
    have 1: "\<forall>m\<in>set xs. length m = states st" using l m by (auto simp: in_set_conv_nth)
    have 2: "\<forall>r\<in>set (concat xs). length r = B"
    proof
      fix x assume "x \<in> set (concat xs)"
      then obtain mm where mm: "mm \<in> set xs" "x \<in> set mm" by auto
      then obtain a where a: "a < length xs" "xs ! a = mm" by (auto simp: in_set_conv_nth)
      from mm(2) obtain s where s: "s < length mm" "mm ! s = x" by (auto simp: in_set_conv_nth)
      show "length x = B" using r[of a s] a s l m[of a] by auto
    qed
    have h1: "length (hd xs) = states st" using 1 l la(3) by (cases xs) auto
    have h2: "concat xs \<noteq> [] \<Longrightarrow> length (hd (concat xs)) = B" using 2 by (cases "concat xs") auto
    show ?thesis
      unfolding rectangular3_def list_all_iff using 1 2 h1 h2 by (cases "concat xs") auto
  qed
  show "rectangular3 (split_succ_s st)" using la(1) ls B by (intro rect) auto
  show "rectangular3 (split_probability st)" using la(2) lp B eq by (intro rect) auto
qed

lemma fit_row_total: "length row = w \<or> length row = 1 \<Longrightarrow> \<exists>r. fit_row w row = Inr r"
  by (auto simp: fit_row_def)

lemma assign_rows_total:
  assumes "\<forall>row\<in>set rows. length row = w \<or> length row = 1" "\<forall>i\<in>set ind. i < length t"
  shows "\<exists>t'. assign_rows w t ind rows = Inr t'"
proof -
  from mapM_total[of rows "fit_row w"] assms(1) fit_row_total
  obtain rows' where "mapM (fit_row w) rows = Inr rows'" by blast
  then show ?thesis using assms(2) by (simp add: assign_rows_def assign_vals_def list_all_iff)
qed

lemma policy_rows_ok:
  assumes ok: "pi_ok B st" and B: "B = A st - 1 \<or> B = 1"
  shows "\<forall>aa\<in>set as. aa < A st \<Longrightarrow> acc_ok (states st) (A st - 1) acc \<Longrightarrow>
         \<exists>acc'. policy_rows st as acc = Inr acc' \<and> acc_ok (states st) (A st - 1) acc'"
proof (induction as arbitrary: acc)
  case Nil
  then show ?case by simp
next
  case (Cons aa as)
  let ?n = "states st" and ?w = "A st - 1"
  let ?ind = "filter (\<lambda>i. policy st ! i = real aa) [0..<length (policy st)]"
  from ok have sok: "solver_ok st" and lpol: "length (policy st) = ?n"
    and Bs: "\<forall>a<A st. \<forall>s<?n. length (split_succ_s st ! a ! s) = B"
    by (simp_all add: pi_ok_def)
  show ?case
  proof (cases "?ind = []")
    case True
    then show ?thesis using Cons by (simp add: Let_def)
  next
    case False
    have aa: "aa < A st" using Cons.prems(1) by simp
    have inds: "\<forall>i\<in>set ?ind. i < ?n" using lpol by auto
    obtain Rp Ps Pp where acc: "acc = (Rp, Ps, Pp)" by (cases acc) auto
    have sh: "length Rp = ?n" "length Ps = ?n" "length Pp = ?n"
      "\<forall>r\<in>set Ps. length r = ?w" "\<forall>r\<in>set Pp. length r = ?w"
      "\<forall>r\<in>set Ps. \<forall>i\<in>set r. 0 \<le> i \<and> i < int ?n"
      using Cons.prems(2) by (simp_all add: acc_ok_def acc_shape_def acc)
    let ?Sa = "split_succ_s st ! aa" and ?Pa = "split_probability st ! aa" and ?Ra = "R st ! aa"
    have l: "length (split_succ_s st) = A st" "length (split_probability st) = A st"
      "length (R st) = A st" "length ?Sa = ?n" "length ?Pa = ?n" "length ?Ra = ?n"
      using sok aa by (simp_all add: solver_ok_def)
    have i1: "idx (split_succ_s st) aa = Inr ?Sa" "idx (split_probability st) aa = Inr ?Pa"
      "idx (R st) aa = Inr ?Ra"
      using aa l by (simp_all add: idx_def)
    have g1: "mapM (idx ?Sa) ?ind = Inr (map ((!) ?Sa) ?ind)"
      by (rule mapM_pure) (use inds l in \<open>auto simp: idx_def\<close>)
    have g2: "mapM (idx ?Pa) ?ind = Inr (map ((!) ?Pa) ?ind)"
      by (rule mapM_pure) (use inds l in \<open>auto simp: idx_def\<close>)
    have g3: "mapM (idx ?Ra) ?ind = Inr (map ((!) ?Ra) ?ind)"
      by (rule mapM_pure) (use inds l in \<open>auto simp: idx_def\<close>)
    have w1: "\<forall>row\<in>set (map ((!) ?Sa) ?ind). length row = ?w \<or> length row = 1"
      using inds Bs aa B by auto
    have w2: "\<forall>row\<in>set (map ((!) ?Pa) ?ind). length row = ?w \<or> length row = 1"
      using inds Bs aa B sok by (auto simp: solver_ok_def)
    have rng: "\<forall>row\<in>set (map ((!) ?Sa) ?ind). \<forall>i\<in>set row. 0 \<le> i \<and> i < int ?n"
      using inds aa sok by (auto simp: solver_ok_def)
    from assign_rows_total[OF w1, of ?ind Ps] inds sh(2)
    obtain Ps' where a1: "assign_rows ?w Ps ?ind (map ((!) ?Sa) ?ind) = Inr Ps'" by auto
    from assign_rows_total[OF w2, of ?ind Pp] inds sh(3)
    obtain Pp' where a2: "assign_rows ?w Pp ?ind (map ((!) ?Pa) ?ind) = Inr Pp'" by auto
    have a3: "assign_vals Rp ?ind (map ((!) ?Ra) ?ind) = Inr (put_all Rp ?ind (map ((!) ?Ra) ?ind))"
      using inds sh(1) by (simp add: assign_vals_def list_all_iff)
    let ?acc1 = "(put_all Rp ?ind (map ((!) ?Ra) ?ind), Ps', Pp')"
    have step: "policy_rows st (aa # as) acc = policy_rows st as ?acc1"
      using False a1 a2 by (simp add: Let_def acc i1 g1 g2 g3 a3)
    have "acc_ok ?n ?w ?acc1"
      unfolding acc_ok_def acc_shape_def
      using assign_rows_Inr[OF a1] assign_rows_Inr[OF a2] sh rng
      by (simp, blast)
    from Cons.IH[OF _ this] Cons.prems(1) step show ?thesis by simp
  qed
qed

lemma computePpolicyPRpolicy_ok:
  assumes ok: "pi_ok B st" and B: "B = A st - 1 \<or> B = 1"
  shows "\<exists>Rp Ps Pp. computePpolicyPRpolicy st = Inr (Rp, Ps, Pp) \<and>
           acc_ok (states st) (A st - 1) (Rp, Ps, Pp)"
proof -
  let ?acc0 = "(replicate (states st) (0 :: real),
              replicate (states st) (replicate (A st - 1) (0 :: int)),
              replicate (states st) (replicate (A st - 1) (0 :: real)))"
  from ok have pos: "0 < A st" "0 < states st" by (simp_all add: pi_ok_def solver_ok_def)
  have "acc_ok (states st) (A st - 1) ?acc0"
    using pos by (auto simp: acc_ok_def acc_shape_def)
  from policy_rows_ok[OF ok B _ this, of "[0..<A st]"]
  obtain acc' where "policy_rows st [0..<A st] ?acc0 = Inr acc'" "acc_ok (states st) (A st - 1) acc'"
    by auto
  then show ?thesis
    using pos pi_ok_rectangular[OF ok]
    by (cases acc') (auto simp: computePpolicyPRpolicy_def)
qed

lemma computePpolicyPRpolicy_fail:
  assumes ok: "pi_ok B st" and B: "B \<noteq> A st - 1" "B \<noteq> 1"
  shows "computePpolicyPRpolicy st = Inl ValueError"
proof -
  from ok have sok: "solver_ok st" and pos: "0 < states st"
    and lpol: "length (policy st) = states st"
    and pol: "list_all (\<lambda>p. \<exists>a<A st. p = real a) (policy st)"
    and Bs: "\<forall>a<A st. \<forall>s<states st. length (split_succ_s st ! a ! s) = B"
    by (simp_all add: pi_ok_def)
  have Apos: "0 < A st" using sok by (simp add: solver_ok_def)
  from pol lpol pos obtain a where a: "a < A st" "policy st ! 0 = real a"
    by (cases "policy st") (auto simp: list_all_iff)
  have "0 \<in> set (filter (\<lambda>i. policy st ! i = real a) [0..<length (policy st)])"
    using a lpol pos by simp
  then have "0 < length (filter (\<lambda>i. policy st ! i = real a) [0..<length (policy st)])"
    by (rule length_pos_if_in_set)
  then have "filter (\<lambda>i. policy st ! i = real a) [0..<length (policy st)] \<noteq> []"
    by (simp only: length_greater_0_conv not_False_eq_True)
  then have "uses_action st a" by (simp add: uses_action_def)
  then have ex: "\<exists>aa\<in>set [0..<A st]. uses_action st aa" using a by auto
  have rows: "\<forall>a<A st. length (split_succ_s st ! a) = states st \<and>
                 (\<forall>s<states st. length (split_succ_s st ! a ! s) = B)"
    using sok Bs by (simp add: solver_ok_def)
  have len: "length (split_succ_s st) = A st" using sok by (simp add: solver_ok_def)
  from policy_rows_fail[OF len lpol rows B _ ex]
  have "policy_rows st [0..<A st] acc = Inl ValueError" for acc by simp
  then show ?thesis
    using Apos pos pi_ok_rectangular[OF ok] by (simp add: computePpolicyPRpolicy_def)
qed

lemma pi_ok_iter [simp]: "pi_ok B (st\<lparr>iter := i\<rparr>) = pi_ok B st"
  by (simp add: pi_ok_def solver_ok_def)

lemma put_all_map_nth:
  "\<forall>i\<in>set ind. i < length t \<Longrightarrow> s < length t \<Longrightarrow>
   put_all t ind (map f ind) ! s = (if s \<in> set ind then f s else t ! s)"
proof (induction ind arbitrary: t)
  case Nil
  then show ?case by simp
next
  case (Cons i ind)
  have "put_all t (i # ind) (map f (i # ind)) ! s = put_all (t[i := f i]) ind (map f ind) ! s"
    by simp
  also have "\<dots> = (if s \<in> set ind then f s else t[i := f i] ! s)"
    using Cons.prems by (intro Cons.IH) simp_all
  also have "\<dots> = (if s \<in> set (i # ind) then f s else t ! s)"
    using Cons.prems by (auto simp: nth_list_update)
  finally show ?case .
qed

lemma fit_row_value:
  "length row = w \<or> length row = 1 \<Longrightarrow>
   fit_row w row = Inr (stored_row w row)"
  by (cases row) (auto simp: fit_row_def stored_row_def)

lemma assign_rows_value:
  assumes "\<forall>i\<in>set ind. length (f i) = w \<or> length (f i) = 1" "\<forall>i\<in>set ind. i < length t"
  shows "assign_rows w t ind (map f ind) =
           Inr (put_all t ind
                  (map (\<lambda>i. stored_row w (f i)) ind))"
proof -
  have "mapM (fit_row w) (map f ind) =
          Inr (map (stored_row w) (map f ind))"
    by (rule mapM_pure) (use assms(1) in \<open>auto simp: fit_row_value\<close>)
  then show ?thesis using assms(2)
    by (simp add: assign_rows_def assign_vals_def list_all_iff comp_def)
qed

lemma stored_row_props:
  assumes "length row = w \<or> length row = 1"
  shows "length (stored_row w row) = w" "set (stored_row w row) \<subseteq> set row"
  using assms by (cases row; auto simp: stored_row_def)+

lemma policy_rows_step:
  fixes st :: mdp and aa :: nat
  defines "ind \<equiv> filter (\<lambda>i. policy st ! i = real aa) [0..<length (policy st)]"
  assumes ok: "pi_ok B st" and B: "B = A st - 1 \<or> B = 1" and aa: "aa < A st"
    and acc: "acc_ok (states st) (A st - 1) (Rp, Ps, Pp)" and ne: "ind \<noteq> []"
  shows "policy_rows st (aa # as) (Rp, Ps, Pp) =
           policy_rows st as
             (put_all Rp ind (map (\<lambda>i. R st ! aa ! i) ind),
              put_all Ps ind (map (\<lambda>i. stored_row (A st - 1) (split_succ_s st ! aa ! i)) ind),
              put_all Pp ind (map (\<lambda>i. stored_row (A st - 1) (split_probability st ! aa ! i)) ind))"
    and "acc_ok (states st) (A st - 1)
             (put_all Rp ind (map (\<lambda>i. R st ! aa ! i) ind),
              put_all Ps ind (map (\<lambda>i. stored_row (A st - 1) (split_succ_s st ! aa ! i)) ind),
              put_all Pp ind (map (\<lambda>i. stored_row (A st - 1) (split_probability st ! aa ! i)) ind))"
proof -
  let ?n = "states st" and ?w = "A st - 1"
  from ok have sok: "solver_ok st" and lpol: "length (policy st) = ?n"
    and Bs: "\<forall>a<A st. \<forall>s<?n. length (split_succ_s st ! a ! s) = B"
    by (simp_all add: pi_ok_def)
  have inds: "\<forall>i\<in>set ind. i < ?n" using lpol by (auto simp: ind_def)
  have sh: "length Rp = ?n" "length Ps = ?n" "length Pp = ?n"
    "\<forall>r\<in>set Ps. length r = ?w" "\<forall>r\<in>set Pp. length r = ?w"
    "\<forall>r\<in>set Ps. \<forall>i\<in>set r. 0 \<le> i \<and> i < int ?n"
    using acc by (simp_all add: acc_ok_def acc_shape_def)
  let ?Sa = "split_succ_s st ! aa" and ?Pa = "split_probability st ! aa" and ?Ra = "R st ! aa"
  have l: "length (split_succ_s st) = A st" "length (split_probability st) = A st"
    "length (R st) = A st" "length ?Sa = ?n" "length ?Pa = ?n" "length ?Ra = ?n"
    using sok aa by (simp_all add: solver_ok_def)
  have i1: "idx (split_succ_s st) aa = Inr ?Sa" "idx (split_probability st) aa = Inr ?Pa"
    "idx (R st) aa = Inr ?Ra"
    using aa l by (simp_all add: idx_def)
  have g1: "mapM (idx ?Sa) ind = Inr (map ((!) ?Sa) ind)"
    by (rule mapM_pure) (use inds l in \<open>auto simp: idx_def\<close>)
  have g2: "mapM (idx ?Pa) ind = Inr (map ((!) ?Pa) ind)"
    by (rule mapM_pure) (use inds l in \<open>auto simp: idx_def\<close>)
  have g3: "mapM (idx ?Ra) ind = Inr (map ((!) ?Ra) ind)"
    by (rule mapM_pure) (use inds l in \<open>auto simp: idx_def\<close>)
  have w1: "\<forall>i\<in>set ind. length (?Sa ! i) = ?w \<or> length (?Sa ! i) = 1"
    using inds Bs aa B by auto
  have w2: "\<forall>i\<in>set ind. length (?Pa ! i) = ?w \<or> length (?Pa ! i) = 1"
    using inds Bs aa B sok by (auto simp: solver_ok_def)
  have rng: "\<forall>i\<in>set ind. \<forall>j\<in>set (?Sa ! i). 0 \<le> j \<and> j < int ?n"
    using inds aa sok l by (auto simp: solver_ok_def)
  have a1: "assign_rows ?w Ps ind (map ((!) ?Sa) ind) =
              Inr (put_all Ps ind (map (\<lambda>i. stored_row ?w (?Sa ! i)) ind))"
    using assign_rows_value[of ind "(!) ?Sa" ?w Ps] w1 inds sh(2) by simp
  have a2: "assign_rows ?w Pp ind (map ((!) ?Pa) ind) =
              Inr (put_all Pp ind (map (\<lambda>i. stored_row ?w (?Pa ! i)) ind))"
    using assign_rows_value[of ind "(!) ?Pa" ?w Pp] w2 inds sh(3) by simp
  have a3: "assign_vals Rp ind (map ((!) ?Ra) ind) = Inr (put_all Rp ind (map ((!) ?Ra) ind))"
    using inds sh(1) by (simp add: assign_vals_def list_all_iff)
  show "policy_rows st (aa # as) (Rp, Ps, Pp) =
           policy_rows st as
             (put_all Rp ind (map (\<lambda>i. R st ! aa ! i) ind),
              put_all Ps ind (map (\<lambda>i. stored_row ?w (?Sa ! i)) ind),
              put_all Pp ind (map (\<lambda>i. stored_row ?w (?Pa ! i)) ind))"
    using ne a1 a2 by (simp add: Let_def ind_def[symmetric] i1 g1 g2 g3 a3)
  have r1: "length r = ?w \<and> (\<forall>j\<in>set r. 0 \<le> j \<and> j < int ?n)"
    if "r \<in> set (put_all Ps ind (map (\<lambda>i. stored_row ?w (?Sa ! i)) ind))" for r
  proof -
    from put_all_set[OF that] show ?thesis
    proof
      assume "r \<in> set Ps" then show ?thesis using sh(4,6) by simp
    next
      assume "r \<in> set (map (\<lambda>i. stored_row ?w (?Sa ! i)) ind)"
      then obtain i where i: "i \<in> set ind" "r = stored_row ?w (?Sa ! i)" by auto
      from stored_row_props[of "?Sa ! i" ?w] w1 i rng show ?thesis by blast
    qed
  qed
  have r2: "length r = ?w"
    if "r \<in> set (put_all Pp ind (map (\<lambda>i. stored_row ?w (?Pa ! i)) ind))" for r
  proof -
    from put_all_set[OF that] show ?thesis
    proof
      assume "r \<in> set Pp" then show ?thesis using sh(5) by simp
    next
      assume "r \<in> set (map (\<lambda>i. stored_row ?w (?Pa ! i)) ind)"
      then obtain i where i: "i \<in> set ind" "r = stored_row ?w (?Pa ! i)" by auto
      from stored_row_props(1)[of "?Pa ! i" ?w] w2 i show ?thesis by blast
    qed
  qed
  show "acc_ok ?n ?w
             (put_all Rp ind (map (\<lambda>i. R st ! aa ! i) ind),
              put_all Ps ind (map (\<lambda>i. stored_row ?w (?Sa ! i)) ind),
              put_all Pp ind (map (\<lambda>i. stored_row ?w (?Pa ! i)) ind))"
    unfolding acc_ok_def acc_shape_def using sh(1,2,3) r1 r2 by simp
qed

lemma policy_rows_content:
  assumes ok: "pi_ok B st" and B: "B = A st - 1 \<or> B = 1" and s: "s < states st"
  shows "\<forall>aa\<in>set as. aa < A st \<Longrightarrow> acc_ok (states st) (A st - 1) acc \<Longrightarrow>
         \<exists>acc'. policy_rows st as acc = Inr acc' \<and> acc_ok (states st) (A st - 1) acc' \<and>
           (if \<exists>a\<in>set as. policy st ! s = real a
            then fst acc' ! s = R st ! nat \<lfloor>policy st ! s\<rfloor> ! s \<and>
                 fst (snd acc') ! s =
                   stored_row (A st - 1) (split_succ_s st ! nat \<lfloor>policy st ! s\<rfloor> ! s) \<and>
                 snd (snd acc') ! s =
                   stored_row (A st - 1) (split_probability st ! nat \<lfloor>policy st ! s\<rfloor> ! s)
            else fst acc' ! s = fst acc ! s \<and> fst (snd acc') ! s = fst (snd acc) ! s \<and>
                 snd (snd acc') ! s = snd (snd acc) ! s)"
proof (induction as arbitrary: acc)
  case Nil
  then show ?case by simp
next
  case (Cons aa as)
  let ?n = "states st" and ?w = "A st - 1"
  let ?ind = "filter (\<lambda>i. policy st ! i = real aa) [0..<length (policy st)]"
  from ok have lpol: "length (policy st) = ?n" by (simp add: pi_ok_def)
  have mem: "s \<in> set ?ind \<longleftrightarrow> policy st ! s = real aa" using s lpol by simp
  show ?case
  proof (cases "?ind = []")
    case True
    then have "s \<notin> set ?ind" by simp
    then have no: "policy st ! s \<noteq> real aa" using mem by blast
    from Cons.IH[of acc] Cons.prems obtain acc' where
      r: "policy_rows st as acc = Inr acc'" "acc_ok ?n ?w acc'"
      and c: "if \<exists>a\<in>set as. policy st ! s = real a
            then fst acc' ! s = R st ! nat \<lfloor>policy st ! s\<rfloor> ! s \<and>
                 fst (snd acc') ! s =
                   stored_row (A st - 1) (split_succ_s st ! nat \<lfloor>policy st ! s\<rfloor> ! s) \<and>
                 snd (snd acc') ! s =
                   stored_row (A st - 1) (split_probability st ! nat \<lfloor>policy st ! s\<rfloor> ! s)
            else fst acc' ! s = fst acc ! s \<and> fst (snd acc') ! s = fst (snd acc) ! s \<and>
                 snd (snd acc') ! s = snd (snd acc) ! s"
      by auto
    have "policy_rows st (aa # as) acc = Inr acc'" using True r(1) by (simp add: Let_def)
    then show ?thesis using r(2) c no by auto
  next
    case False
    have aa: "aa < A st" using Cons.prems(1) by simp
    obtain Rp Ps Pp where acc: "acc = (Rp, Ps, Pp)" by (cases acc) auto
    have accok: "acc_ok ?n ?w (Rp, Ps, Pp)" using Cons.prems(2) acc by simp
    let ?acc1 = "(put_all Rp ?ind (map (\<lambda>i. R st ! aa ! i) ?ind),
              put_all Ps ?ind (map (\<lambda>i. stored_row ?w (split_succ_s st ! aa ! i)) ?ind),
              put_all Pp ?ind (map (\<lambda>i. stored_row ?w (split_probability st ! aa ! i)) ?ind))"
    note st = policy_rows_step[OF ok B aa accok False]
    have sh: "length Rp = ?n" "length Ps = ?n" "length Pp = ?n"
      using accok by (simp_all add: acc_ok_def acc_shape_def)
    have inds: "\<forall>i\<in>set ?ind. i < ?n" using lpol by auto
    have n1: "fst ?acc1 ! s = (if policy st ! s = real aa then R st ! aa ! s else Rp ! s)"
      using put_all_map_nth[of ?ind Rp s "\<lambda>i. R st ! aa ! i"] inds sh(1) s mem by simp
    have n2: "fst (snd ?acc1) ! s =
        (if policy st ! s = real aa then stored_row ?w (split_succ_s st ! aa ! s) else Ps ! s)"
      using put_all_map_nth[of ?ind Ps s "\<lambda>i. stored_row ?w (split_succ_s st ! aa ! i)"]
        inds sh(2) s mem by simp
    have n3: "snd (snd ?acc1) ! s =
        (if policy st ! s = real aa then stored_row ?w (split_probability st ! aa ! s) else Pp ! s)"
      using put_all_map_nth[of ?ind Pp s "\<lambda>i. stored_row ?w (split_probability st ! aa ! i)"]
        inds sh(3) s mem by simp
    from Cons.IH[OF _ st(2)] Cons.prems(1) obtain acc' where
      r: "policy_rows st as ?acc1 = Inr acc'" "acc_ok ?n ?w acc'"
      and c: "if \<exists>a\<in>set as. policy st ! s = real a
            then fst acc' ! s = R st ! nat \<lfloor>policy st ! s\<rfloor> ! s \<and>
                 fst (snd acc') ! s =
                   stored_row (A st - 1) (split_succ_s st ! nat \<lfloor>policy st ! s\<rfloor> ! s) \<and>
                 snd (snd acc') ! s =
                   stored_row (A st - 1) (split_probability st ! nat \<lfloor>policy st ! s\<rfloor> ! s)
            else fst acc' ! s = fst ?acc1 ! s \<and> fst (snd acc') ! s = fst (snd ?acc1) ! s \<and>
                 snd (snd acc') ! s = snd (snd ?acc1) ! s"
      by auto
    have run: "policy_rows st (aa # as) acc = Inr acc'" using st(1) r(1) acc by simp
    show ?thesis
    proof (cases "\<exists>a\<in>set as. policy st ! s = real a")
      case True
      then show ?thesis using run r(2) c by auto
    next
      case nx: False
      show ?thesis
      proof (cases "policy st ! s = real aa")
        case True
        then have fl: "nat \<lfloor>policy st ! s\<rfloor> = aa" by simp
        from c nx have "fst acc' ! s = fst ?acc1 ! s \<and> fst (snd acc') ! s = fst (snd ?acc1) ! s \<and>
                 snd (snd acc') ! s = snd (snd ?acc1) ! s" by simp
        then have "fst acc' ! s = R st ! aa ! s \<and>
                 fst (snd acc') ! s = stored_row ?w (split_succ_s st ! aa ! s) \<and>
                 snd (snd acc') ! s = stored_row ?w (split_probability st ! aa ! s)"
          using n1 n2 n3 True by simp
        then show ?thesis using run r(2) True fl by auto
      next
        case False
        from c nx have "fst acc' ! s = fst ?acc1 ! s \<and> fst (snd acc') ! s = fst (snd ?acc1) ! s \<and>
                 snd (snd acc') ! s = snd (snd ?acc1) ! s" by simp
        then have "fst acc' ! s = Rp ! s \<and> fst (snd acc') ! s = Ps ! s \<and>
                 snd (snd acc') ! s = Pp ! s"
          using n1 n2 n3 False by simp
        then show ?thesis using run r(2) False nx acc by auto
      qed
    qed
  qed
qed

lemma computePpolicyPRpolicy_content:
  assumes ok: "pi_ok B st" and B: "B = A st - 1 \<or> B = 1"
  shows "\<exists>Rp Ps Pp. computePpolicyPRpolicy st = Inr (Rp, Ps, Pp) \<and>
           (\<forall>s<states st.
              Rp ! s = R st ! nat \<lfloor>policy st ! s\<rfloor> ! s \<and>
              Ps ! s = stored_row (A st - 1) (split_succ_s st ! nat \<lfloor>policy st ! s\<rfloor> ! s) \<and>
              Pp ! s = stored_row (A st - 1) (split_probability st ! nat \<lfloor>policy st ! s\<rfloor> ! s))"
proof -
  let ?acc0 = "(replicate (states st) (0 :: real),
              replicate (states st) (replicate (A st - 1) (0 :: int)),
              replicate (states st) (replicate (A st - 1) (0 :: real)))"
  from ok have pos: "0 < A st" "0 < states st" and lpol: "length (policy st) = states st"
    and pol: "list_all (\<lambda>p. \<exists>a<A st. p = real a) (policy st)"
    by (simp_all add: pi_ok_def solver_ok_def)
  have a0: "acc_ok (states st) (A st - 1) ?acc0"
    using pos by (auto simp: acc_ok_def acc_shape_def)
  from computePpolicyPRpolicy_ok[OF ok B] obtain Rp Ps Pp where
    c: "computePpolicyPRpolicy st = Inr (Rp, Ps, Pp)" by blast
  then have run: "policy_rows st [0..<A st] ?acc0 = Inr (Rp, Ps, Pp)"
    by (auto simp: computePpolicyPRpolicy_def split: if_splits)
  have "Rp ! s = R st ! nat \<lfloor>policy st ! s\<rfloor> ! s \<and>
        Ps ! s = stored_row (A st - 1) (split_succ_s st ! nat \<lfloor>policy st ! s\<rfloor> ! s) \<and>
        Pp ! s = stored_row (A st - 1) (split_probability st ! nat \<lfloor>policy st ! s\<rfloor> ! s)"
    if s: "s < states st" for s
  proof -
    have ex: "\<exists>a\<in>set [0..<A st]. policy st ! s = real a"
      using pol lpol s by (auto simp: list_all_length)
    from policy_rows_content[OF ok B s _ a0, of "[0..<A st]"] run ex
    show ?thesis by auto
  qed
  then show ?thesis using c by blast
qed

text \<open>
  Claim C10, as the code has it. On a well-formed policy-iteration object whose
  successor chunks have \<open>B\<close> entries, the policy-induced arrays have \<open>A - 1\<close> entries
  per state whenever the setup returns. When \<open>B\<close> is neither \<open>A - 1\<close> nor 1 the
  assignment of the chosen action's rows raises \<^verbatim>\<open>ValueError\<close>: the setup fails, so
  the evaluation raises before its first turn, and so does the run. When \<open>B\<close> is
  \<open>A - 1\<close> or 1 the setup returns, and at every state \<open>s\<close> with chosen action \<open>a\<close> it
  holds the reward \<open>R[a][s]\<close> and, for \<open>B = A - 1\<close>, the successor and probability lists
  of \<open>(a, s)\<close> as they are; for \<open>B = 1\<close>, the single successor and the single
  probability of \<open>(a, s)\<close>, each repeated over the \<open>A - 1\<close> columns.
\<close>

theorem policy_arrays_width:
  assumes "pi_ok B st"
  shows "(\<forall>Rp Ps Pp. computePpolicyPRpolicy st = Inr (Rp, Ps, Pp) \<longrightarrow>
            length Rp = states st \<and> length Ps = states st \<and> length Pp = states st \<and>
            (\<forall>r\<in>set Ps. length r = A st - 1) \<and> (\<forall>r\<in>set Pp. length r = A st - 1)) \<and>
         (B \<noteq> A st - 1 \<and> B \<noteq> 1 \<longrightarrow>
            computePpolicyPRpolicy st = Inl ValueError \<and>
            eval_start st None = Inl ValueError \<and>
            evalPolicyIterative st None eps maxit = Some (Inl ValueError) \<and>
            PI_run st = Some (Inl ValueError)) \<and>
         (B = A st - 1 \<or> B = 1 \<longrightarrow>
            (\<exists>Rp Ps Pp. computePpolicyPRpolicy st = Inr (Rp, Ps, Pp) \<and>
               (\<forall>s a. s < states st \<and> policy st ! s = real a \<longrightarrow>
                  Rp ! s = R st ! a ! s \<and>
                  (B = A st - 1 \<longrightarrow>
                     Ps ! s = split_succ_s st ! a ! s \<and> Pp ! s = split_probability st ! a ! s) \<and>
                  (B = 1 \<longrightarrow>
                     Ps ! s = replicate (A st - 1) (split_succ_s st ! a ! s ! 0) \<and>
                     Pp ! s = replicate (A st - 1) (split_probability st ! a ! s ! 0)))))"
proof (intro conjI allI impI)
  fix Rp Ps Pp
  assume c: "computePpolicyPRpolicy st = Inr (Rp, Ps, Pp)"
  from computePpolicyPRpolicy_shape[OF c]
  show "length Rp = states st" "length Ps = states st" "length Pp = states st"
    "\<forall>r\<in>set Ps. length r = A st - 1" "\<forall>r\<in>set Pp. length r = A st - 1"
    by simp_all
next
  assume B: "B \<noteq> A st - 1 \<and> B \<noteq> 1"
  show f: "computePpolicyPRpolicy st = Inl ValueError"
    using computePpolicyPRpolicy_fail[OF assms] B by simp
  then show "eval_start st None = Inl ValueError" by (simp add: eval_start_def)
  then show "evalPolicyIterative st None eps maxit = Some (Inl ValueError)"
    by (simp add: evalPolicyIterative_def)
  have "computePpolicyPRpolicy (st\<lparr>iter := iter st + 1\<rparr>) = Inl ValueError"
    using computePpolicyPRpolicy_fail[of B "st\<lparr>iter := iter st + 1\<rparr>"] assms B by simp
  then have "evalPolicyIterative (st\<lparr>iter := iter st + 1\<rparr>) None (1 / 10000) 100 = Some (Inl ValueError)"
    by (simp add: evalPolicyIterative_def eval_start_def)
  then show "PI_run st = Some (Inl ValueError)"
    unfolding PI_run_def by (subst pi_loop.simps) simp
next
  assume B: "B = A st - 1 \<or> B = 1"
  from assms have sok: "solver_ok st"
    and Bs: "\<forall>a<A st. \<forall>s<states st. length (split_succ_s st ! a ! s) = B"
    and lpol: "length (policy st) = states st"
    and pol: "list_all (\<lambda>p. \<exists>a<A st. p = real a) (policy st)"
    by (simp_all add: pi_ok_def)
  from computePpolicyPRpolicy_content[OF assms B] obtain Rp Ps Pp where
    c: "computePpolicyPRpolicy st = Inr (Rp, Ps, Pp)"
    and v: "\<forall>s<states st.
              Rp ! s = R st ! nat \<lfloor>policy st ! s\<rfloor> ! s \<and>
              Ps ! s = stored_row (A st - 1) (split_succ_s st ! nat \<lfloor>policy st ! s\<rfloor> ! s) \<and>
              Pp ! s = stored_row (A st - 1) (split_probability st ! nat \<lfloor>policy st ! s\<rfloor> ! s)"
    by blast
  have "Rp ! s = R st ! a ! s \<and>
        (B = A st - 1 \<longrightarrow>
           Ps ! s = split_succ_s st ! a ! s \<and> Pp ! s = split_probability st ! a ! s) \<and>
        (B = 1 \<longrightarrow>
           Ps ! s = replicate (A st - 1) (split_succ_s st ! a ! s ! 0) \<and>
           Pp ! s = replicate (A st - 1) (split_probability st ! a ! s ! 0))"
    if sa: "s < states st \<and> policy st ! s = real a" for s a
  proof -
    have fl: "nat \<lfloor>policy st ! s\<rfloor> = a" using sa by simp
    have "\<exists>a'<A st. policy st ! s = real a'" using pol lpol sa by (auto simp: list_all_length)
    then have a: "a < A st" using sa by auto
    have l1: "length (split_succ_s st ! a ! s) = B" using Bs a sa by simp
    have l2: "length (split_probability st ! a ! s) = B"
      using sok a sa l1 by (simp add: solver_ok_def)
    from v sa fl have e: "Rp ! s = R st ! a ! s"
      "Ps ! s = stored_row (A st - 1) (split_succ_s st ! a ! s)"
      "Pp ! s = stored_row (A st - 1) (split_probability st ! a ! s)"
      by auto
    have one: "replicate (A st - 1) (row ! 0) = row" if "length row = A st - 1" "length row = 1"
      for row :: "'b list"
      using that by (cases row) auto
    show ?thesis
    proof (intro conjI impI)
      show "Rp ! s = R st ! a ! s" by (rule e(1))
      show "Ps ! s = split_succ_s st ! a ! s" if "B = A st - 1"
        using e(2) l1 that by (simp add: stored_row_def)
      show "Pp ! s = split_probability st ! a ! s" if "B = A st - 1"
        using e(3) l2 that by (simp add: stored_row_def)
      show "Ps ! s = replicate (A st - 1) (split_succ_s st ! a ! s ! 0)" if "B = 1"
        using e(2) l1 that one[of "split_succ_s st ! a ! s"] by (simp add: stored_row_def)
      show "Pp ! s = replicate (A st - 1) (split_probability st ! a ! s ! 0)" if "B = 1"
        using e(3) l2 that one[of "split_probability st ! a ! s"] by (simp add: stored_row_def)
    qed
  qed
  then show "\<exists>Rp Ps Pp. computePpolicyPRpolicy st = Inr (Rp, Ps, Pp) \<and>
               (\<forall>s a. s < states st \<and> policy st ! s = real a \<longrightarrow>
                  Rp ! s = R st ! a ! s \<and>
                  (B = A st - 1 \<longrightarrow>
                     Ps ! s = split_succ_s st ! a ! s \<and> Pp ! s = split_probability st ! a ! s) \<and>
                  (B = 1 \<longrightarrow>
                     Ps ! s = replicate (A st - 1) (split_succ_s st ! a ! s ! 0) \<and>
                     Pp ! s = replicate (A st - 1) (split_probability st ! a ! s ! 0)))"
    using c by blast
qed

lemma PI_init_ex_wide:
  "PI_init [[0, 1, 2, 1, 2, 0], [0, 1, 2, 1, 2, 0]]
     [[1 / 2, 1 / 2, 1 / 2, 1 / 2, 1 / 2, 1 / 2], [1 / 2, 1 / 2, 1 / 2, 1 / 2, 1 / 2, 1 / 2]]
     [1, 2, 3] 3 (1 / 2) (1 / 100) None 10 = Inr ex_wide"
  by (simp add: ex_wide_def pi_eval_defs eval_defs)

lemma PI_init_ex_bcast:
  "PI_init [[0, 1, 2], [0, 1, 2], [0, 1, 2]] [[1, 1, 1], [1, 1, 1], [1, 1, 1]]
     [1, 2, 3] 3 (1 / 2) (1 / 100) None 10 = Inr ex_bcast"
  by (simp add: ex_bcast_def pi_eval_defs eval_defs)

lemma ex_wide_ok: "pi_ok 2 ex_wide"
  unfolding pi_ok_def solver_ok_def ex_wide_def
  by (simp add: less_Suc_eq numeral_2_eq_2 numeral_3_eq_3 all_conj_distrib)

lemma ex_bcast_ok: "pi_ok 1 ex_bcast"
  unfolding pi_ok_def solver_ok_def ex_bcast_def
  by (simp add: less_Suc_eq numeral_2_eq_2 numeral_3_eq_3 all_conj_distrib)

lemma policy_arrays_ex_bcast:
  "computePpolicyPRpolicy ex_bcast =
     Inr ([1, 2, 3], [[0, 0], [1, 1], [2, 2]], [[1, 1], [1, 1], [1, 1]])"
  by (simp add: ex_bcast_def pi_eval_defs eval_defs)

lemma eval_step_ex_bcast:
  "eval_step ex_bcast [1, 2, 3] [[0, 0], [1, 1], [2, 2]] [[1, 1], [1, 1], [1, 1]] [0, 0, 0] =
     Inr ([1, 2, 3], 3)"
  by (simp add: ex_bcast_def pi_eval_defs eval_defs)

lemma ex_full_ok: "pi_ok 2 ex_full"
  unfolding pi_ok_def solver_ok_def ex_full_def
  by (simp add: less_Suc_eq numeral_2_eq_2 numeral_3_eq_3 all_conj_distrib)

lemma policy_arrays_ex_full:
  "computePpolicyPRpolicy ex_full =
     Inr ([1, 2], [[1, 0], [1, 1]], [[1 / 5, 4 / 5], [1 / 4, 3 / 4]])"
  by (simp add: ex_full_def pi_eval_defs eval_defs)

theorem policy_arrays_width_witness:
  "PI_init [[0, 1, 2, 1, 2, 0], [0, 1, 2, 1, 2, 0]]
     [[1 / 2, 1 / 2, 1 / 2, 1 / 2, 1 / 2, 1 / 2], [1 / 2, 1 / 2, 1 / 2, 1 / 2, 1 / 2, 1 / 2]]
     [1, 2, 3] 3 (1 / 2) (1 / 100) None 10 = Inr ex_wide \<and>
   pi_ok 2 ex_wide \<and> A ex_wide = 2 \<and>
   computePpolicyPRpolicy ex_wide = Inl ValueError \<and>
   eval_start ex_wide None = Inl ValueError \<and>
   PI_run ex_wide = Some (Inl ValueError) \<and>
   pi_ok 1 ex_bcast \<and> A ex_bcast = 3 \<and> policy ex_bcast ! 1 = real 0 \<and>
   computePpolicyPRpolicy ex_bcast =
     Inr ([1, 2, 3], [[0, 0], [1, 1], [2, 2]], [[1, 1], [1, 1], [1, 1]]) \<and>
   [[0, 0], [1, 1], [2, 2]] ! 1 = replicate (A ex_bcast - 1) (split_succ_s ex_bcast ! 0 ! 1 ! 0) \<and>
   [[1, 1], [1, 1], [1, 1]] ! 1 = replicate (A ex_bcast - 1) (split_probability ex_bcast ! 0 ! 1 ! 0) \<and>
   pi_ok 2 ex_full \<and> A ex_full = 3 \<and> policy ex_full ! 0 = real 2 \<and> policy ex_full ! 1 = real 0 \<and>
   computePpolicyPRpolicy ex_full =
     Inr ([1, 2], [[1, 0], [1, 1]], [[1 / 5, 4 / 5], [1 / 4, 3 / 4]]) \<and>
   [[1, 0], [1, 1]] ! 0 = split_succ_s ex_full ! 2 ! 0 \<and>
   [[1 / 5, 4 / 5], [1 / 4, 3 / 4]] ! 0 = split_probability ex_full ! 2 ! 0 \<and>
   [[1, 0], [1, 1]] ! 1 = split_succ_s ex_full ! 0 ! 1 \<and>
   [[1 / 5, 4 / 5], [1 / 4, 3 / 4]] ! 1 = split_probability ex_full ! 0 ! 1"
proof -
  have a: "A ex_wide = 2" "A ex_bcast = 3" "states ex_bcast = 3" "A ex_full = 3" "states ex_full = 2"
    by (simp_all add: ex_wide_def ex_bcast_def ex_full_def)
  have p: "policy ex_bcast ! 1 = real 0" "policy ex_full ! 0 = real 2" "policy ex_full ! 1 = real 0"
    by (simp_all add: ex_bcast_def ex_full_def)
  note w = policy_arrays_width[OF ex_wide_ok, of "1 / 10000" 100]
  have "(2 :: nat) \<noteq> A ex_wide - 1 \<and> (2 :: nat) \<noteq> 1" using a by simp
  with w have f: "computePpolicyPRpolicy ex_wide = Inl ValueError"
    "eval_start ex_wide None = Inl ValueError"
    "PI_run ex_wide = Some (Inl ValueError)" by blast+
  note b = policy_arrays_width[OF ex_bcast_ok, of "1 / 10000" 100]
  from b obtain Rp Ps Pp where c: "computePpolicyPRpolicy ex_bcast = Inr (Rp, Ps, Pp)"
    and v: "\<forall>s a. s < states ex_bcast \<and> policy ex_bcast ! s = real a \<longrightarrow>
                  Rp ! s = R ex_bcast ! a ! s \<and>
                  ((1 :: nat) = A ex_bcast - 1 \<longrightarrow>
                     Ps ! s = split_succ_s ex_bcast ! a ! s \<and>
                     Pp ! s = split_probability ex_bcast ! a ! s) \<and>
                  ((1 :: nat) = 1 \<longrightarrow>
                     Ps ! s = replicate (A ex_bcast - 1) (split_succ_s ex_bcast ! a ! s ! 0) \<and>
                     Pp ! s = replicate (A ex_bcast - 1) (split_probability ex_bcast ! a ! s ! 0))"
    by blast
  from c policy_arrays_ex_bcast
  have e: "Ps = [[0, 0], [1, 1], [2, 2]]" "Pp = [[1, 1], [1, 1], [1, 1]]" by simp_all
  from v[rule_format, of 1 0] a p(1)
  have bc: "Ps ! 1 = replicate (A ex_bcast - 1) (split_succ_s ex_bcast ! 0 ! 1 ! 0)"
    "Pp ! 1 = replicate (A ex_bcast - 1) (split_probability ex_bcast ! 0 ! 1 ! 0)"
    by simp_all
  note g = policy_arrays_width[OF ex_full_ok, of "1 / 10000" 100]
  have "(2 :: nat) = A ex_full - 1 \<or> (2 :: nat) = 1" using a by simp
  with g obtain Rq Qs Qp where d: "computePpolicyPRpolicy ex_full = Inr (Rq, Qs, Qp)"
    and u: "\<forall>s a. s < states ex_full \<and> policy ex_full ! s = real a \<longrightarrow>
                  Rq ! s = R ex_full ! a ! s \<and>
                  ((2 :: nat) = A ex_full - 1 \<longrightarrow>
                     Qs ! s = split_succ_s ex_full ! a ! s \<and>
                     Qp ! s = split_probability ex_full ! a ! s) \<and>
                  ((2 :: nat) = 1 \<longrightarrow>
                     Qs ! s = replicate (A ex_full - 1) (split_succ_s ex_full ! a ! s ! 0) \<and>
                     Qp ! s = replicate (A ex_full - 1) (split_probability ex_full ! a ! s ! 0))"
    by blast
  from d policy_arrays_ex_full
  have h: "Qs = [[1, 0], [1, 1]]" "Qp = [[1 / 5, 4 / 5], [1 / 4, 3 / 4]]" by simp_all
  from u[rule_format, of 0 2] u[rule_format, of 1 0] a p(2,3)
  have fu: "Qs ! 0 = split_succ_s ex_full ! 2 ! 0" "Qp ! 0 = split_probability ex_full ! 2 ! 0"
    "Qs ! 1 = split_succ_s ex_full ! 0 ! 1" "Qp ! 1 = split_probability ex_full ! 0 ! 1"
    by simp_all
  show ?thesis
    using PI_init_ex_wide ex_wide_ok ex_bcast_ok ex_full_ok a(1,2,4) p f
      policy_arrays_ex_bcast policy_arrays_ex_full bc[unfolded e] fu[unfolded h]
    by blast
qed

text \<open>
  The claim as stated lets every width other than \<open>A - 1\<close> fail. With three actions
  and one successor per state the setup returns, each row holding its one successor
  twice, and the first evaluation turn runs.
\<close>

theorem policy_arrays_width_counterexample:
  "PI_init [[0, 1, 2], [0, 1, 2], [0, 1, 2]] [[1, 1, 1], [1, 1, 1], [1, 1, 1]]
     [1, 2, 3] 3 (1 / 2) (1 / 100) None 10 = Inr ex_bcast \<and>
   A ex_bcast - 1 = 2 \<and> length (split_succ_s ex_bcast ! 0 ! 0) = 1 \<and>
   computePpolicyPRpolicy ex_bcast =
     Inr ([1, 2, 3], [[0, 0], [1, 1], [2, 2]], [[1, 1], [1, 1], [1, 1]]) \<and>
   eval_step ex_bcast [1, 2, 3] [[0, 0], [1, 1], [2, 2]] [[1, 1], [1, 1], [1, 1]] [0, 0, 0] =
     Inr ([1, 2, 3], 3)"
proof -
  have "A ex_bcast - 1 = 2" "length (split_succ_s ex_bcast ! 0 ! 0) = 1"
    by (simp_all add: ex_bcast_def)
  then show ?thesis
    using PI_init_ex_bcast policy_arrays_ex_bcast eval_step_ex_bcast by blast
qed

subsection \<open>The shape of the output\<close>

lemma column_length [simp]: "length (column Q s) = length Q"
  by (simp add: column_def)

lemma bellman_shape:
  assumes "bellmanOperator st Vopt = Inr (pol, val)"
  shows "length pol = states st" "length val = states st"
    "list_all (\<lambda>p. \<exists>a<A st. p = real a) pol"
proof -
  let ?v = "case Vopt of None \<Rightarrow> V st | Some v \<Rightarrow> v"
  from assms obtain Q where
    q: "mapM (\<lambda>a. mapM (\<lambda>s1. q_value st ?v a s1) [0..<states st]) [0..<A st] = Inr Q"
    and ne: "Q \<noteq> []"
    and pol: "pol = map (\<lambda>s. real (argmax_scan (hd (column Q s)) 0 1 (tl (column Q s)))) [0..<states st]"
    and val: "val = map (\<lambda>s. list_max (column Q s)) [0..<states st]"
    by (auto simp: bellmanOperator_def Let_def split: if_splits sum.splits)
  show "length pol = states st" "length val = states st" using pol val by simp_all
  have lq: "length Q = A st" using mapM_length[OF q] by simp
  have "argmax_scan (hd (column Q s)) 0 1 (tl (column Q s)) < A st" for s
  proof -
    have "column Q s \<noteq> []" using ne by (simp add: column_def)
    from argmax_first[OF this] show ?thesis using lq by simp
  qed
  then show "list_all (\<lambda>p. \<exists>a<A st. p = real a) pol"
    unfolding pol list_all_iff by auto
qed

lemma action_index_range: "list_all (\<lambda>p. \<exists>a<n. p = real a) ps \<Longrightarrow> list_all (\<lambda>p. 0 \<le> p \<and> p < real n) ps"
  by (auto simp: list_all_iff)

lemma eval_backup_length: "eval_backup st Rp Ps Pp v = Inr v' \<Longrightarrow> length v' = states st"
  unfolding eval_backup_def by (drule mapM_length) simp

lemma backups_length:
  "backups st Rp Ps Pp k v = Inr v' \<Longrightarrow> 1 \<le> k \<Longrightarrow> length v' = states st"
proof (cases k)
  case 0
  then show "1 \<le> k \<Longrightarrow> ?thesis" by simp
next
  case (Suc j)
  assume "backups st Rp Ps Pp k v = Inr v'"
  then obtain w where "eval_backup st Rp Ps Pp w = Inr v'"
    unfolding Suc backups_Suc_end by (auto simp: bindE_Inr_iff)
  then show ?thesis by (rule eval_backup_length)
qed

lemma evalPolicyIterative_length:
  assumes "evalPolicyIterative st V0 eps maxit = Some (Inr st')"
  shows "length (V st') = states st"
proof -
  from assms obtain pV Rp Ps Pp res where
    l: "eval_loop st Rp Ps Pp eps maxit 0 pV = Some (Inr res)" and v: "V st' = snd res"
    by (auto simp: evalPolicyIterative_def split: sum.splits option.splits prod.splits)
  obtain itr' v' where res: "res = (itr', v')" by (cases res)
  from eval_loop_result[OF l[unfolded res]] obtain k where
    "1 \<le> k" "backups st Rp Ps Pp k pV = Inr v'" by blast
  from backups_length[OF this(2,1)] show ?thesis using v res by simp
qed

lemma improve_shape:
  "improve st = Inr r \<Longrightarrow> length (fst r) = states st \<and> list_all (\<lambda>p. \<exists>a<A st. p = real a) (fst r)"
  by (cases r) (auto simp: improve_def bindE_Inr_iff dest: bellman_shape)

lemma pi_loop_shape_aux:
  assumes "pi_loop st = Some r"
  shows "case r of Inl e \<Rightarrow> True
         | Inr st' \<Rightarrow>
             length (policy st) = states st \<and> list_all (\<lambda>p. 0 \<le> p \<and> p < real (A st)) (policy st)
             \<longrightarrow> output_ok st'"
proof (rule pi_loop.raw_induct[where P = "\<lambda>st r. case r of Inl e \<Rightarrow> True
         | Inr st' \<Rightarrow>
             length (policy st) = states st \<and> list_all (\<lambda>p. 0 \<le> p \<and> p < real (A st)) (policy st)
             \<longrightarrow> output_ok st'", OF _ assms], goal_cases)
  case (1 f st r)
  show ?case
  proof (cases r)
    case (Inl e)
    then show ?thesis by simp
  next
    case (Inr st')
    from 1(2) Inr obtain st2 where
      ev: "evalPolicyIterative (st\<lparr>iter := iter st + 1\<rparr>) None (1 / 10000) 100 = Some (Inr st2)"
      by (auto split: option.splits sum.splits)
    from 1(2) Inr ev obtain im where im: "improve st2 = Inr im"
      by (auto split: sum.splits)
    have sm: "same_model st st2" "policy st2 = policy st"
      using evalPolicyIterative_same[OF ev] by (simp_all add: same_model_def)
    have lv: "length (V st2) = states st" using evalPolicyIterative_length[OF ev] by simp
    have n: "states st2 = states st" "A st2 = A st" using sm(1) by (simp_all add: same_model_def)
    show ?thesis
    proof (cases "snd im = 0 \<or> iter st2 = max_iter st2")
      case True
      then have "st' = st2" using 1(2) Inr ev im by (auto split: if_splits)
      then show ?thesis using Inr sm(2) lv n by (simp add: output_ok_def)
    next
      case False
      then have rec: "f (st2\<lparr>policy := fst im\<rparr>) = Some (Inr st')"
        using 1(2) Inr ev im by auto
      have "length (fst im) = states st2" "list_all (\<lambda>p. 0 \<le> p \<and> p < real (A st2)) (fst im)"
        using improve_shape[OF im] action_index_range by auto
      with 1(1)[OF rec] show ?thesis using Inr by simp
    qed
  qed
qed

lemma PI_run_shape:
  assumes "PI_run st = Some (Inr st')" "length (policy st) = states st"
    "list_all (\<lambda>p. 0 \<le> p \<and> p < real (A st)) (policy st)"
  shows "output_ok st'"
  using pi_loop_shape_aux[OF assms(1)[unfolded PI_run_def]] assms(2,3) by simp

lemma vi_loop_shape_aux:
  assumes "vi_loop st = Some r"
  shows "case r of Inl e \<Rightarrow> True | Inr st' \<Rightarrow> output_ok st'"
proof (rule vi_loop.raw_induct[where P = "\<lambda>st r. case r of Inl e \<Rightarrow> True | Inr st' \<Rightarrow> output_ok st'",
      OF _ assms], goal_cases)
  case (1 f st r)
  show ?case
  proof (cases r)
    case (Inl e)
    then show ?thesis by simp
  next
    case (Inr st')
    from 1(2) Inr obtain x where x: "vi_step (st\<lparr>iter := iter st + 1\<rparr>) = Inr x"
      by (auto split: sum.splits)
    then obtain pv where b: "bellmanOperator (st\<lparr>iter := iter st + 1\<rparr>) None = Inr pv"
      and x1: "fst x = fst pv" "fst (snd x) = snd pv"
      by (auto simp: vi_step_def bindE_Inr_iff)
    have sh: "length (fst x) = states st" "length (fst (snd x)) = states st"
      "list_all (\<lambda>p. 0 \<le> p \<and> p < real (A st)) (fst x)"
      using bellman_shape[of "st\<lparr>iter := iter st + 1\<rparr>" None "fst pv" "snd pv"] b x1
        action_index_range[of "A st" "fst pv"] by simp_all
    show ?thesis
    proof (cases "snd (snd x) < thresh st \<or> iter st + 1 = max_iter st")
      case True
      then have "st' = st\<lparr>iter := iter st + 1, policy := fst x, V := fst (snd x)\<rparr>"
        using 1(2) Inr x by (auto split: if_splits)
      then show ?thesis using Inr sh by (simp add: output_ok_def)
    next
      case False
      then have "f (st\<lparr>iter := iter st + 1, policy := fst x, V := fst (snd x)\<rparr>) = Some (Inr st')"
        using 1(2) Inr x by auto
      from 1(1)[OF this] show ?thesis using Inr by simp
    qed
  qed
qed

lemma VI_run_shape: "VI_run st = Some (Inr st') \<Longrightarrow> output_ok st'"
  unfolding VI_run_def by (drule vi_loop_shape_aux) simp

lemma gs_final_shape:
  "gs_final st v pol ss = Inr (v', pol') \<Longrightarrow>
   length v' = length v \<and> length pol' = length pol + length ss \<and>
   (list_all (\<lambda>p. \<exists>a<A st. p = real a) pol \<longrightarrow> list_all (\<lambda>p. \<exists>a<A st. p = real a) pol')"
proof (induction ss arbitrary: v pol)
  case Nil
  then show ?case by simp
next
  case (Cons s1 ss)
  from Cons.prems obtain Q where q: "mapM (\<lambda>a. q_value st v a s1) [0..<A st] = Inr Q"
    and ne: "Q \<noteq> []" and s1: "s1 < length v"
    and rec: "gs_final st (v[s1 := list_max Q]) (pol @ [real (argmax_scan (hd Q) 0 1 (tl Q))]) ss
                = Inr (v', pol')"
    by (auto split: sum.splits if_splits)
  have "length Q = A st" using mapM_length[OF q] by simp
  then have "argmax_scan (hd Q) 0 1 (tl Q) < A st" using argmax_first[OF ne] by simp
  then show ?case using Cons.IH[OF rec] by auto
qed

lemma GS_run_shape:
  assumes "GS_run st = Some (Inr st')" "length (V st) = states st"
    "length (split_succ_s st ! 0) = states st"
  shows "output_ok st'"
proof -
  from assms(1) obtain st1 where l: "gs_loop st = Some (Inr st1)" and f: "gs_finish st1 = Inr st'"
    by (auto simp: GS_run_def split: option.splits sum.splits)
  have sm: "same_model st st1" using l by (rule gs_loop_same)
  have lv: "length (V st1) = states st" using gs_loop_frame[OF l] assms(2) by simp
  from f obtain v' pol' where
    g: "gs_final st1 (V st1) [] [0..<length (split_succ_s st1 ! 0)] = Inr (v', pol')"
    and st': "st' = st1\<lparr>V := v', policy := pol'\<rparr>"
    by (auto simp: gs_finish_def bindE_Inr_iff idx_def split: if_splits)
  have rows: "length (split_succ_s st1 ! 0) = states st" using sm assms(3) by (simp add: same_model_def)
  from gs_final_shape[OF g] have "length v' = states st" "length pol' = states st"
    "list_all (\<lambda>p. \<exists>a<A st1. p = real a) pol'"
    using lv rows by simp_all
  then show ?thesis
    using st' sm action_index_range[of "A st1" pol'] by (simp add: output_ok_def same_model_def)
qed

lemma PI_init_shape:
  assumes "PI_init succ_s probability_s r n disc eps p0 maxit = Inr st"
    and "case p0 of None \<Rightarrow> True
         | Some p \<Rightarrow> length p = n \<and> list_all (\<lambda>x. x < real (length succ_s)) p"
  shows "states st = n" "A st = length succ_s" "length (policy st) = states st"
    "list_all (\<lambda>p. 0 \<le> p \<and> p < real (A st)) (policy st)"
proof -
  from assms(1) obtain st0 pol where m: "MDP_init succ_s probability_s r n disc eps maxit = Inr st0"
    and pol: "(case p0 of
              None \<Rightarrow> bindE (bellmanOperator st0 (Some (replicate n 0))) (\<lambda>pv. Inr (fst pv))
            | Some p0 \<Rightarrow> check_policy0 (S st0) p0) = Inr pol"
    and st: "st = st0\<lparr>policy := pol, V := replicate n 0\<rparr>"
    by (auto simp: PI_init_def bindE_Inr_iff)
  note f = MDP_init_Inr[OF m]
  show "states st = n" "A st = length succ_s" using st f by simp_all
  have "length pol = n \<and> list_all (\<lambda>p. 0 \<le> p \<and> p < real (A st0)) pol"
  proof (cases p0)
    case None
    with pol obtain pv where "bellmanOperator st0 (Some (replicate n 0)) = Inr pv" "pol = fst pv"
      by (auto simp: bindE_Inr_iff)
    then show ?thesis
      using bellman_shape[of st0 "Some (replicate n 0)" "fst pv" "snd pv"] f(11)
        action_index_range[of "A st0" pol] by simp
  next
    case (Some p)
    with pol have "check_policy0 (S st0) p = Inr pol" by simp
    then have "pol = p" "list_all (\<lambda>x. 0 \<le> x) p"
      by (auto simp: check_policy0_def split: if_splits)
    then show ?thesis using assms(2) Some f(8) by (auto simp: list_all_iff)
  qed
  then show "length (policy st) = states st"
    "list_all (\<lambda>p. 0 \<le> p \<and> p < real (A st)) (policy st)"
    using st f by simp_all
qed

text \<open>
  Claim C7. After a run returns, the policy and the value function have one entry per
  state and every policy entry lies in \<open>[0, A)\<close>: for policy iteration constructed
  without \<open>policy0\<close> or with a \<open>policy0\<close> of one entry per state whose entries are
  below the number of actions, for Gauss-Seidel value iteration after its constructor,
  and for the run of plain value iteration on any solver object.
\<close>

theorem solver_output_shape:
  "(PI_init succ_s probability_s r n disc eps p0 maxit = Inr st \<and>
    (case p0 of None \<Rightarrow> True
     | Some p \<Rightarrow> length p = n \<and> list_all (\<lambda>x. x < real (length succ_s)) p) \<and>
    PI_run st = Some (Inr st') \<longrightarrow>
      output_ok st' \<and> states st' = n \<and> A st' = length succ_s) \<and>
   (GS_init succ_s probability_s r n disc eps maxit iv = Inr gs \<and> GS_run gs = Some (Inr gs') \<longrightarrow>
      output_ok gs' \<and> states gs' = n \<and> A gs' = length succ_s) \<and>
   (VI_run vi = Some (Inr vi') \<longrightarrow>
      output_ok vi' \<and> states vi' = states vi \<and> A vi' = A vi)"
proof (intro conjI impI)
  assume a: "PI_init succ_s probability_s r n disc eps p0 maxit = Inr st \<and>
    (case p0 of None \<Rightarrow> True
     | Some p \<Rightarrow> length p = n \<and> list_all (\<lambda>x. x < real (length succ_s)) p) \<and>
    PI_run st = Some (Inr st')"
  note sh = PI_init_shape[of succ_s probability_s r n disc eps p0 maxit st]
  have sm: "same_model st st'" using a pi_loop_same[of st st'] by (simp add: PI_run_def)
  show "output_ok st'" using PI_run_shape[of st st'] a sh by simp
  show "states st' = n" "A st' = length succ_s" using sm sh a by (simp_all add: same_model_def)
next
  assume a: "GS_init succ_s probability_s r n disc eps maxit iv = Inr gs \<and> GS_run gs = Some (Inr gs')"
  note sh = GS_init_shape[of succ_s probability_s r n disc eps maxit iv gs]
  have sm: "same_model gs gs'" using a GS_run_same by blast
  show "output_ok gs'" using GS_run_shape[of gs gs'] a sh by simp
  show "states gs' = n" "A gs' = length succ_s" using sm sh a by (simp_all add: same_model_def)
next
  assume a: "VI_run vi = Some (Inr vi')"
  show "output_ok vi'" using a by (rule VI_run_shape)
  have "same_model vi vi'" using a vi_loop_same[of vi vi'] by (simp add: VI_run_def)
  then show "states vi' = states vi" "A vi' = A vi" by (simp_all add: same_model_def)
qed

subsection \<open>Termination of policy iteration\<close>

lemma eval_backup_ok:
  assumes acc: "acc_ok (states st) w (Rp, Ps, Pp)" and v: "length v = states st"
  shows "\<exists>v'. eval_backup st Rp Ps Pp v = Inr v' \<and> length v' = states st"
proof -
  let ?n = "states st"
  from acc have sh: "length Rp = ?n" "length Ps = ?n" "length Pp = ?n"
    "\<forall>r\<in>set Ps. length r = w" "\<forall>r\<in>set Pp. length r = w"
    "\<forall>r\<in>set Ps. \<forall>i\<in>set r. 0 \<le> i \<and> i < int ?n"
    by (simp_all add: acc_ok_def acc_shape_def)
  have "\<exists>v'. eval_backup st Rp Ps Pp v = Inr v'"
    unfolding eval_backup_def
  proof (rule mapM_total)
    fix s1 assume "s1 \<in> set [0..<?n]"
    then have s: "s1 < ?n" by simp
    have rng: "\<forall>i\<in>set (Ps ! s1). 0 \<le> i \<and> i < int (length v)"
      using sh(2,6) s v by auto
    have tk: "np_take v (Ps ! s1) = Inr (map (\<lambda>i. v ! nat i) (Ps ! s1))"
      by (rule np_take_in_range) (rule rng)
    have "length (Pp ! s1) = length (Ps ! s1)" using sh(2,3,4,5) s by simp
    then show "\<exists>y. bindE (idx Rp s1) (\<lambda>r.
       bindE (idx Pp s1) (\<lambda>p.
       bindE (idx Ps s1) (\<lambda>sc.
       bindE (np_take v sc) (\<lambda>vs.
       bindE (np_dot p vs) (\<lambda>d. Inr (r + discount st * d)))))) = Inr y"
      using s sh(1,2,3) tk by (simp add: idx_def np_dot_def)
  qed
  then show ?thesis using eval_backup_length by blast
qed

lemma abs_variation_ok:
  "length a = length b \<Longrightarrow> a \<noteq> [] \<Longrightarrow> \<exists>x. abs_variation a b = Inr x"
  by (cases a; cases b) (simp_all add: abs_variation_def np_broadcast2_def np_max_def)

lemma eval_step_ok:
  assumes "acc_ok (states st) w (Rp, Ps, Pp)" "length v = states st" "0 < states st"
  shows "\<exists>v' x. eval_step st Rp Ps Pp v = Inr (v', x) \<and> length v' = states st"
proof -
  from eval_backup_ok[OF assms(1,2)] obtain v' where
    e: "eval_backup st Rp Ps Pp v = Inr v'" and l: "length v' = states st" by blast
  have "v' \<noteq> []" "length v' = length v" using l assms(2,3) by auto
  from abs_variation_ok[OF this(2,1)] obtain x where "abs_variation v' v = Inr x"
    by auto
  then show ?thesis using e l by (simp add: eval_step_def)
qed

lemma eval_loop_ok:
  assumes acc: "acc_ok (states st) w (Rp, Ps, Pp)" and pos: "0 < states st" and d: "discount st \<noteq> 0"
  shows "itr < maxit \<Longrightarrow> length v = states st \<Longrightarrow>
         \<exists>res. eval_loop st Rp Ps Pp eps maxit itr v = Some (Inr res)"
proof (induction "nat (maxit - itr)" arbitrary: itr v)
  case 0
  then show ?case by simp
next
  case (Suc k)
  from eval_step_ok[OF acc Suc.prems(2) pos] obtain v' x where
    es: "eval_step st Rp Ps Pp v = Inr (v', x)" and l: "length v' = states st" by blast
  show ?case
  proof (cases "x < ((1 - discount st) / discount st) * eps \<or> itr + 1 = maxit")
    case True
    then show ?thesis using es d by (subst eval_loop.simps) auto
  next
    case False
    then have "k = nat (maxit - (itr + 1))" "itr + 1 < maxit"
      using Suc.hyps(2) Suc.prems(1) by auto
    from Suc.hyps(1)[OF this l] obtain res where
      "eval_loop st Rp Ps Pp eps maxit (itr + 1) v' = Some (Inr res)" by blast
    then show ?thesis using es d False by (subst eval_loop.simps) auto
  qed
qed

lemma evalPolicyIterative_ok:
  assumes ok: "pi_ok B st" and B: "B = A st - 1 \<or> B = 1"
  shows "\<exists>st2. evalPolicyIterative st None eps 100 = Some (Inr st2)"
proof -
  from computePpolicyPRpolicy_ok[OF ok B] obtain Rp Ps Pp where
    c: "computePpolicyPRpolicy st = Inr (Rp, Ps, Pp)"
    and acc: "acc_ok (states st) (A st - 1) (Rp, Ps, Pp)" by blast
  from ok have pos: "0 < states st" and d: "discount st \<noteq> 0" by (simp_all add: pi_ok_def)
  from eval_loop_ok[OF acc pos d, of 0 100 "replicate (states st) 0" eps]
  obtain res where "eval_loop st Rp Ps Pp eps 100 0 (replicate (states st) 0) = Some (Inr res)"
    by auto
  then show ?thesis using c by (simp add: evalPolicyIterative_def eval_start_def)
qed

lemma pi_ok_step:
  assumes ok: "pi_ok B st" and ev: "evalPolicyIterative (st\<lparr>iter := i\<rparr>) None eps 100 = Some (Inr st2)"
    and im: "improve st2 = Inr r"
  shows "pi_ok B st2" "pi_ok B (st2\<lparr>policy := fst r\<rparr>)" "iter st2 = i" "max_iter st2 = max_iter st"
proof -
  from evalPolicyIterative_same[OF ev] have sm: "same_model st st2"
    and it: "iter st2 = i" and pol: "policy st2 = policy st"
    by (simp_all add: same_model_def)
  show "iter st2 = i" by (rule it)
  show "max_iter st2 = max_iter st" using sm by (simp add: same_model_def)
  show 1: "pi_ok B st2" using ok sm pol same_model_ok[OF sm]
    by (simp add: pi_ok_def same_model_def)
  from improve_shape[OF im] 1 show "pi_ok B (st2\<lparr>policy := fst r\<rparr>)"
    by (simp add: pi_ok_def solver_ok_def)
qed

lemma pi_loop_terminates:
  "iter st < max_iter st \<Longrightarrow> \<exists>r. pi_loop st = Some r"
proof (induction "nat (max_iter st - iter st)" arbitrary: st)
  case 0
  then show ?case by simp
next
  case (Suc k)
  let ?st1 = "st\<lparr>iter := iter st + 1\<rparr>"
  from evalPolicyIterative_terminates[of ?st1 None "1 / 10000"]
  obtain e where e: "evalPolicyIterative ?st1 None (1 / 10000) 100 = Some e" by blast
  show ?case
  proof (cases e)
    case (Inl err)
    then show ?thesis using e by (subst pi_loop.simps) simp
  next
    case (Inr st2)
    have it: "iter st2 = iter st + 1" "max_iter st2 = max_iter st"
      using evalPolicyIterative_same[OF e[unfolded Inr]] by (simp_all add: same_model_def)
    show ?thesis
    proof (cases "improve st2")
      case (Inl err)
      then show ?thesis using e Inr by (subst pi_loop.simps) simp
    next
      case im: (Inr r)
      show ?thesis
      proof (cases "snd r = 0 \<or> iter st2 = max_iter st2")
        case True
        then show ?thesis using e Inr im by (subst pi_loop.simps) auto
      next
        case False
        let ?st3 = "st2\<lparr>policy := fst r\<rparr>"
        have "k = nat (max_iter ?st3 - iter ?st3)" "iter ?st3 < max_iter ?st3"
          using Suc.hyps(2) Suc.prems it False by auto
        from Suc.hyps(1)[OF this] obtain res where "pi_loop ?st3 = Some res" by blast
        then show ?thesis using e Inr im False by (subst pi_loop.simps) auto
      qed
    qed
  qed
qed

lemma pi_loop_exit_aux:
  assumes "pi_loop st = Some r"
  shows "case r of Inl e \<Rightarrow> True
         | Inr st' \<Rightarrow>
             iter st < iter st' \<and> max_iter st' = max_iter st \<and>
             (iter st < max_iter st \<longrightarrow> iter st' \<le> max_iter st) \<and>
             ((\<exists>pn. improve st' = Inr (pn, 0)) \<or> iter st' = max_iter st)"
proof (rule pi_loop.raw_induct[where P = "\<lambda>st r. case r of Inl e \<Rightarrow> True
         | Inr st' \<Rightarrow>
             iter st < iter st' \<and> max_iter st' = max_iter st \<and>
             (iter st < max_iter st \<longrightarrow> iter st' \<le> max_iter st) \<and>
             ((\<exists>pn. improve st' = Inr (pn, 0)) \<or> iter st' = max_iter st)", OF _ assms], goal_cases)
  case (1 f st r)
  show ?case
  proof (cases r)
    case (Inl e)
    then show ?thesis by simp
  next
    case (Inr st')
    from 1(2) Inr obtain st2 where
      ev: "evalPolicyIterative (st\<lparr>iter := iter st + 1\<rparr>) None (1 / 10000) 100 = Some (Inr st2)"
      by (auto split: option.splits sum.splits)
    from 1(2) Inr ev obtain im where im: "improve st2 = Inr im"
      by (auto split: sum.splits)
    have it: "iter st2 = iter st + 1" "max_iter st2 = max_iter st"
      using evalPolicyIterative_same[OF ev] by (simp_all add: same_model_def)
    show ?thesis
    proof (cases "snd im = 0 \<or> iter st2 = max_iter st2")
      case True
      then have s: "st' = st2" using 1(2) Inr ev im by (auto split: if_splits)
      have "(\<exists>pn. improve st2 = Inr (pn, 0)) \<or> iter st2 = max_iter st"
        using True im it by (cases im) auto
      then show ?thesis using Inr s it by auto
    next
      case False
      then have rec: "f (st2\<lparr>policy := fst im\<rparr>) = Some (Inr st')"
        using 1(2) Inr ev im by auto
      from 1(1)[OF rec] show ?thesis using Inr it False by auto
    qed
  qed
qed

lemma eval_loop_count:
  assumes "eval_loop st Rp Ps Pp eps 100 0 v = Some (Inr (itr, v'))"
  shows "1 \<le> itr \<and> itr \<le> 100"
proof -
  from eval_loop_result[OF assms] obtain k where
    k: "1 \<le> k" "itr = 0 + int k"
    "\<forall>j. 1 \<le> j \<and> j < k \<longrightarrow> \<not> stop_test st Rp Ps Pp eps v j \<and> 0 + int j \<noteq> 100"
    by blast
  have "k \<le> 100"
  proof (rule ccontr)
    assume "\<not> k \<le> 100"
    then have "1 \<le> (100 :: nat) \<and> 100 < k" by simp
    with k(3) have "0 + int 100 \<noteq> 100" by blast
    then show False by simp
  qed
  then show ?thesis using k(1,2) by simp
qed

lemma PI_init_iter:
  assumes "PI_init succ_s probability_s r n disc eps p0 maxit = Inr st"
  shows "iter st = 0 \<and> max_iter st = maxit \<and> 0 < maxit"
proof -
  from assms obtain st0 pol where m: "MDP_init succ_s probability_s r n disc eps maxit = Inr st0"
    and st: "st = st0\<lparr>policy := pol, V := replicate n 0\<rparr>"
    by (auto simp: PI_init_def bindE_Inr_iff)
  from MDP_init_Inr[OF m] st show ?thesis by simp
qed

lemma integer_action:
  assumes "x - of_int \<lfloor>x\<rfloor> = 0" "0 \<le> x" "x < real n"
  shows "\<exists>a<n. x = real a"
proof -
  have x: "x = of_int \<lfloor>x\<rfloor>" using assms(1) by simp
  have "0 \<le> \<lfloor>x\<rfloor>" using assms(2) by simp
  then obtain k where k: "\<lfloor>x\<rfloor> = int k" using nonneg_int_cases by blast
  have "x = real k" using x k by simp
  then show ?thesis using assms(3) by auto
qed

lemma PI_init_pi_ok:
  assumes i: "PI_init succ_s probability_s r n disc eps p0 maxit = Inr st"
    and v: "valid_tables n B succ_s probability_s"
    and p: "case p0 of None \<Rightarrow> True
            | Some p \<Rightarrow> length p = n \<and> list_all (\<lambda>x. x < real (length succ_s)) p"
  shows "pi_ok B st"
proof -
  from i obtain st0 pol where m: "MDP_init succ_s probability_s r n disc eps maxit = Inr st0"
    and pol: "(case p0 of
              None \<Rightarrow> bindE (bellmanOperator st0 (Some (replicate n 0))) (\<lambda>pv. Inr (fst pv))
            | Some p0 \<Rightarrow> check_policy0 (S st0) p0) = Inr pol"
    and st: "st = st0\<lparr>policy := pol, V := replicate n 0\<rparr>"
    by (auto simp: PI_init_def bindE_Inr_iff)
  note f = MDP_init_Inr[OF m] and ok = MDP_init_ok[OF m v]
  have "length pol = n \<and> list_all (\<lambda>p. \<exists>a<A st0. p = real a) pol"
  proof (cases p0)
    case None
    with pol obtain pv where "bellmanOperator st0 (Some (replicate n 0)) = Inr pv" "pol = fst pv"
      by (auto simp: bindE_Inr_iff)
    then show ?thesis
      using bellman_shape[of st0 "Some (replicate n 0)" "fst pv" "snd pv"] f(11) by simp
  next
    case (Some q)
    with pol have c: "check_policy0 (S st0) q = Inr pol" by simp
    then have e: "pol = q" and fr: "\<forall>x\<in>set q. x - of_int \<lfloor>x\<rfloor> = 0" and nn: "\<forall>x\<in>set q. 0 \<le> x"
      by (auto simp: check_policy0_def list_all_iff list_ex_iff split: if_splits)
    from p Some have lq: "length q = n" and up: "\<forall>x\<in>set q. x < real (length succ_s)"
      by (auto simp: list_all_iff)
    have "\<forall>x\<in>set q. \<exists>a<A st0. x = real a"
      using fr nn up f(8) integer_action by auto
    then show ?thesis using e lq by (simp add: list_all_iff)
  qed
  then show ?thesis
    using ok st f unfolding pi_ok_def solver_ok_def by simp
qed

lemma count_true_map2:
  assumes "length xs = length ys"
  shows "length (filter (\<lambda>b. b) (map2 f xs ys)) =
         length (filter (\<lambda>i. f (xs ! i) (ys ! i)) [0..<length xs])"
proof -
  have "map2 f xs ys = map (\<lambda>i. f (xs ! i) (ys ! i)) [0..<length xs]"
    using assms by (intro nth_equalityI) simp_all
  then show ?thesis by (simp add: filter_map comp_def)
qed

lemma improve_spec:
  assumes ok: "solver_ok st" and lv: "length (V st) = states st"
    and lp: "length (policy st) = states st"
  shows "\<exists>pn. improve st = Inr (pn, n_different pn (policy st)) \<and> candidate st pn"
proof -
  let ?Q = "\<lambda>s. map (Qsa st (V st) s) [0..<A st]"
  let ?pn = "map (\<lambda>s. real (argmax_scan (hd (?Q s)) 0 1 (tl (?Q s)))) [0..<states st]"
  have Apos: "0 < A st" using ok by (simp add: solver_ok_def)
  from bellmanOperator_table[OF ok, of "V st" None] lv
  obtain val where bo: "bellmanOperator st None = Inr (?pn, val)" by simp
  have l: "length ?pn = length (policy st)" using lp by simp
  have im: "improve st = Inr (?pn, n_different ?pn (policy st))"
    using count_true_map2[OF l, of "\<lambda>x y. x \<noteq> y"] l
    by (simp add: improve_def bo np_broadcast2_def n_different_def del: length_map)
  have "greedy_at st (V st) s (?pn ! s)" if s: "s < states st" for s
  proof -
    note fm = first_max_row[OF Apos, of "Qsa st (V st) s"]
    show ?thesis unfolding greedy_at_def using fm(2,3,4) s by auto
  qed
  then have "candidate st ?pn" by (simp add: candidate_def)
  then show ?thesis using im by blast
qed

lemma greedy_at_unique:
  assumes "greedy_at st v s p" "greedy_at st v s q"
  shows "p = q"
proof -
  from assms obtain a b where a: "a < A st" "p = real a" "Qsa st v s a = Max (Qsa st v s ` {..<A st})"
    "\<forall>c<a. Qsa st v s c < Qsa st v s a"
    and b: "b < A st" "q = real b" "Qsa st v s b = Max (Qsa st v s ` {..<A st})"
    "\<forall>c<b. Qsa st v s c < Qsa st v s b"
    unfolding greedy_at_def by blast
  have "a = b"
  proof (rule ccontr)
    assume "a \<noteq> b"
    then consider "a < b" | "b < a" by linarith
    then show False using a(3,4) b(3,4) by cases auto
  qed
  then show ?thesis using a(2) b(2) by simp
qed

lemma candidate_unique:
  assumes "candidate st p" "candidate st q"
  shows "p = q"
proof (rule nth_equalityI)
  show "length p = length q" using assms by (simp add: candidate_def)
  fix i assume "i < length p"
  then have "greedy_at st (V st) i (p ! i)" "greedy_at st (V st) i (q ! i)"
    using assms by (simp_all add: candidate_def)
  then show "p ! i = q ! i" by (rule greedy_at_unique)
qed

lemma n_different_zero: "length pn = length pol \<Longrightarrow> n_different pn pol = 0 \<longleftrightarrow> pn = pol"
  by (auto simp: n_different_def filter_empty_conv intro: nth_equalityI)

lemma pi_loop_step:
  assumes ok: "pi_ok B st" and B: "B = A st - 1 \<or> B = 1"
  shows "\<exists>st2 pn.
           evalPolicyIterative (st\<lparr>iter := iter st + 1\<rparr>) None (1 / 10000) 100 = Some (Inr st2) \<and>
           same_model st st2 \<and> iter st2 = iter st + 1 \<and> policy st2 = policy st \<and>
           candidate st2 pn \<and> pi_ok B (st2\<lparr>policy := pn\<rparr>) \<and>
           pi_loop st =
             (if n_different pn (policy st) = 0 \<or> iter st + 1 = max_iter st then Some (Inr st2)
              else pi_loop (st2\<lparr>policy := pn\<rparr>))"
proof -
  let ?st1 = "st\<lparr>iter := iter st + 1\<rparr>"
  have ok1: "pi_ok B ?st1" using ok by simp
  from evalPolicyIterative_ok[OF ok1, of "1 / 10000"] B
  obtain st2 where ev: "evalPolicyIterative ?st1 None (1 / 10000) 100 = Some (Inr st2)" by auto
  have sm: "same_model st st2" and it: "iter st2 = iter st + 1" and pol: "policy st2 = policy st"
    using evalPolicyIterative_same[OF ev] by (simp_all add: same_model_def)
  have lv: "length (V st2) = states st2"
    using evalPolicyIterative_length[OF ev] sm by (simp add: same_model_def)
  have ok2: "solver_ok st2" "length (policy st2) = states st2"
    using ok sm pol same_model_ok[OF sm] by (simp_all add: pi_ok_def same_model_def)
  from improve_spec[OF ok2(1) lv ok2(2)] obtain pn where
    im: "improve st2 = Inr (pn, n_different pn (policy st2))" and c: "candidate st2 pn" by blast
  note step = pi_ok_step[OF ok ev im]
  have mx: "max_iter st2 = max_iter st" using sm by (simp add: same_model_def)
  have "pi_loop st =
             (if n_different pn (policy st) = 0 \<or> iter st + 1 = max_iter st then Some (Inr st2)
              else pi_loop (st2\<lparr>policy := pn\<rparr>))"
    by (subst pi_loop.simps) (simp add: ev im pol it mx)
  then show ?thesis using ev sm it pol c step(2) by auto
qed

lemma pi_loop_run:
  "pi_ok B st \<Longrightarrow> B = A st - 1 \<or> B = 1 \<Longrightarrow> iter st < max_iter st \<Longrightarrow>
   \<exists>st'. pi_loop st = Some (Inr st') \<and> same_model st st' \<and>
         iter st < iter st' \<and> iter st' \<le> max_iter st \<and>
         (\<exists>pn. candidate st' pn \<and>
            (n_different pn (policy st') = 0 \<or> iter st' = max_iter st))"
proof (induction "nat (max_iter st - iter st)" arbitrary: st)
  case 0
  then show ?case by simp
next
  case (Suc k)
  from pi_loop_step[OF Suc.prems(1,2)] obtain st2 pn where
    sm: "same_model st st2" and it: "iter st2 = iter st + 1" and pol: "policy st2 = policy st"
    and c: "candidate st2 pn" and ok3: "pi_ok B (st2\<lparr>policy := pn\<rparr>)"
    and lp: "pi_loop st =
             (if n_different pn (policy st) = 0 \<or> iter st + 1 = max_iter st then Some (Inr st2)
              else pi_loop (st2\<lparr>policy := pn\<rparr>))"
    by blast
  have mx: "max_iter st2 = max_iter st" "A st2 = A st" using sm by (simp_all add: same_model_def)
  show ?case
  proof (cases "n_different pn (policy st) = 0 \<or> iter st + 1 = max_iter st")
    case True
    then have "pi_loop st = Some (Inr st2)" using lp by simp
    moreover have "n_different pn (policy st2) = 0 \<or> iter st2 = max_iter st"
      using True pol it by simp
    ultimately show ?thesis using sm it c Suc.prems(3) by auto
  next
    case False
    let ?st3 = "st2\<lparr>policy := pn\<rparr>"
    have k: "k = nat (max_iter ?st3 - iter ?st3)" and lt: "iter ?st3 < max_iter ?st3"
      using Suc.hyps(2) Suc.prems(3) it mx False by auto
    have B3: "B = A ?st3 - 1 \<or> B = 1" using Suc.prems(2) mx by simp
    from Suc.hyps(1)[OF k ok3 B3 lt] obtain st' where
      r: "pi_loop ?st3 = Some (Inr st')" and sm3: "same_model ?st3 st'"
      and i3: "iter ?st3 < iter st'" "iter st' \<le> max_iter ?st3"
      and e3: "\<exists>pn. candidate st' pn \<and>
            (n_different pn (policy st') = 0 \<or> iter st' = max_iter ?st3)"
      by blast
    have "pi_loop st = Some (Inr st')" using lp False r by simp
    moreover have "same_model st st'" using sm sm3 by (simp add: same_model_def)
    ultimately show ?thesis using i3 e3 it mx by auto
  qed
qed

lemma pi_loop_fail:
  assumes ok: "pi_ok B st" and B: "B \<noteq> A st - 1" "B \<noteq> 1"
  shows "pi_loop st = Some (Inl ValueError)"
proof -
  have "computePpolicyPRpolicy (st\<lparr>iter := iter st + 1\<rparr>) = Inl ValueError"
    using computePpolicyPRpolicy_fail[of B "st\<lparr>iter := iter st + 1\<rparr>"] ok B by simp
  then have "evalPolicyIterative (st\<lparr>iter := iter st + 1\<rparr>) None (1 / 10000) 100 = Some (Inl ValueError)"
    by (simp add: evalPolicyIterative_def eval_start_def)
  then show ?thesis by (subst pi_loop.simps) simp
qed

lemma evalPolicyIterative_turns:
  assumes "evalPolicyIterative st None eps 100 = Some (Inr st')"
  shows "\<exists>Rp Ps Pp k. computePpolicyPRpolicy st = Inr (Rp, Ps, Pp) \<and> 1 \<le> k \<and> k \<le> 100 \<and>
           backups st Rp Ps Pp k (replicate (states st) 0) = Inr (V st')"
proof -
  let ?z = "replicate (states st) (0 :: real)"
  from assms obtain Rp Ps Pp res where
    c: "computePpolicyPRpolicy st = Inr (Rp, Ps, Pp)"
    and l: "eval_loop st Rp Ps Pp eps 100 0 ?z = Some (Inr res)"
    and v: "V st' = snd res"
    by (auto simp: evalPolicyIterative_def eval_start_def bindE_Inr_iff
        split: sum.splits option.splits prod.splits)
  obtain itr' v' where res: "res = (itr', v')" by (cases res)
  from eval_loop_result[OF l[unfolded res]] obtain k where
    k: "1 \<le> k" "itr' = 0 + int k" "backups st Rp Ps Pp k ?z = Inr v'"
    by blast
  from eval_loop_count[OF l[unfolded res]] k(2) have "k \<le> 100" by simp
  then show ?thesis using c k(1,3) v res by auto
qed

lemma pi_loop_step_turns:
  assumes ok: "pi_ok B st" and B: "B = A st - 1 \<or> B = 1"
  shows "\<exists>st2 pn Rp Ps Pp k.
           evalPolicyIterative (st\<lparr>iter := iter st + 1\<rparr>) None (1 / 10000) 100 = Some (Inr st2) \<and>
           computePpolicyPRpolicy (st\<lparr>iter := iter st + 1\<rparr>) = Inr (Rp, Ps, Pp) \<and>
           1 \<le> k \<and> k \<le> 100 \<and>
           backups (st\<lparr>iter := iter st + 1\<rparr>) Rp Ps Pp k (replicate (states st) 0) = Inr (V st2) \<and>
           iter st2 = iter st + 1 \<and> policy st2 = policy st \<and>
           candidate st2 pn \<and> pi_ok B (st2\<lparr>policy := pn\<rparr>) \<and>
           PI_run st =
             (if n_different pn (policy st) = 0 \<or> iter st + 1 = max_iter st
              then Some (Inr st2) else PI_run (st2\<lparr>policy := pn\<rparr>))"
proof -
  from pi_loop_step[OF ok B] obtain st2 pn where
    ev: "evalPolicyIterative (st\<lparr>iter := iter st + 1\<rparr>) None (1 / 10000) 100 = Some (Inr st2)"
    and r: "iter st2 = iter st + 1" "policy st2 = policy st" "candidate st2 pn"
      "pi_ok B (st2\<lparr>policy := pn\<rparr>)"
      "pi_loop st =
             (if n_different pn (policy st) = 0 \<or> iter st + 1 = max_iter st then Some (Inr st2)
              else pi_loop (st2\<lparr>policy := pn\<rparr>))"
    by blast
  from evalPolicyIterative_turns[OF ev] obtain Rp Ps Pp k where
    t: "computePpolicyPRpolicy (st\<lparr>iter := iter st + 1\<rparr>) = Inr (Rp, Ps, Pp)" "1 \<le> k" "k \<le> 100"
      "backups (st\<lparr>iter := iter st + 1\<rparr>) Rp Ps Pp k (replicate (states st) 0) = Inr (V st2)"
    by auto
  show ?thesis
    using ev r t unfolding PI_run_def by blast
qed

lemma eval_start_fail:
  assumes ok: "pi_ok B st" and B: "B \<noteq> A st - 1" "B \<noteq> 1"
  shows "eval_start (st\<lparr>iter := i\<rparr>) None = Inl ValueError"
  using computePpolicyPRpolicy_fail[of B "st\<lparr>iter := i\<rparr>"] ok B
  by (simp add: eval_start_def)

text \<open>
  Claim C6, as the code has it. Take a well-formed policy-iteration object whose
  successor chunks have \<open>B\<close> entries, below the cap, as the constructor leaves it on
  valid tables (\<open>iter = 0 < max_iter\<close>).

  When \<open>B\<close> is \<open>A - 1\<close> or 1 the run returns. Each turn of the outer loop raises the
  count by one, evaluates the policy with \<open>epsilon = 0.0001\<close> in \<open>k\<close> backups from the
  zero vector, \<open>1 \<le> k \<le> 100\<close>, and takes the candidate policy, the first greedy action
  at every state for the evaluated value function. The run ends at the first turn at which the candidate
  differs from the policy in no state or the count equals \<open>max_iter\<close>; otherwise it
  adopts the candidate and goes on. So the count it returns is at most \<open>max_iter\<close>,
  and at the returned object the candidate differs from the policy in no state or the
  count equals \<open>max_iter\<close>.

  When \<open>B\<close> is neither \<open>A - 1\<close> nor 1 the run ends as well, but it raises
  \<^verbatim>\<open>ValueError\<close> in the setup of its first evaluation.

  From any object below the cap the run ends, and a returned count is at most
  \<open>max_iter\<close>. Every evaluation ends, after at least one and at most 100 turns. The
  last part states both cases for the object the constructor returns on valid tables.
\<close>

theorem PI_run_terminates:
  assumes "pi_ok B st" and "iter st < max_iter st"
  shows "(B = A st - 1 \<or> B = 1 \<longrightarrow>
            (\<exists>st'. PI_run st = Some (Inr st') \<and> same_model st st' \<and>
               iter st < iter st' \<and> iter st' \<le> max_iter st \<and>
               (\<exists>pn. candidate st' pn \<and>
                  (n_different pn (policy st') = 0 \<or> iter st' = max_iter st))) \<and>
            (\<exists>st2 pn Rp Ps Pp k.
               evalPolicyIterative (st\<lparr>iter := iter st + 1\<rparr>) None (1 / 10000) 100 = Some (Inr st2) \<and>
               computePpolicyPRpolicy (st\<lparr>iter := iter st + 1\<rparr>) = Inr (Rp, Ps, Pp) \<and>
               1 \<le> k \<and> k \<le> 100 \<and>
               backups (st\<lparr>iter := iter st + 1\<rparr>) Rp Ps Pp k (replicate (states st) 0) =
                 Inr (V st2) \<and>
               iter st2 = iter st + 1 \<and> policy st2 = policy st \<and>
               candidate st2 pn \<and> pi_ok B (st2\<lparr>policy := pn\<rparr>) \<and>
               PI_run st =
                 (if n_different pn (policy st) = 0 \<or> iter st + 1 = max_iter st
                  then Some (Inr st2) else PI_run (st2\<lparr>policy := pn\<rparr>)))) \<and>
         (B \<noteq> A st - 1 \<and> B \<noteq> 1 \<longrightarrow>
            eval_start (st\<lparr>iter := iter st + 1\<rparr>) None = Inl ValueError \<and>
            PI_run st = Some (Inl ValueError)) \<and>
         (\<forall>s pn pn'. candidate s pn \<and> candidate s pn' \<longrightarrow> pn = pn') \<and>
         (\<forall>s. iter s < max_iter s \<longrightarrow>
            (\<exists>r. PI_run s = Some r) \<and>
            (\<forall>s'. PI_run s = Some (Inr s') \<longrightarrow> iter s < iter s' \<and> iter s' \<le> max_iter s)) \<and>
         (\<forall>s V0 eps. \<exists>r. evalPolicyIterative s V0 eps 100 = Some r) \<and>
         (\<forall>s Rp Ps Pp eps v itr v'.
            eval_loop s Rp Ps Pp eps 100 0 v = Some (Inr (itr, v')) \<longrightarrow> 1 \<le> itr \<and> itr \<le> 100) \<and>
         (\<forall>succ_s probability_s r n disc eps p0 maxit s0 B'.
            PI_init succ_s probability_s r n disc eps p0 maxit = Inr s0 \<and>
            valid_tables n B' succ_s probability_s \<and>
            (case p0 of None \<Rightarrow> True
             | Some p \<Rightarrow> length p = n \<and> list_all (\<lambda>x. x < real (length succ_s)) p) \<longrightarrow>
            pi_ok B' s0 \<and> A s0 = length succ_s \<and> iter s0 = 0 \<and> max_iter s0 = maxit \<and>
            0 < maxit \<and>
            (B' = length succ_s - 1 \<or> B' = 1 \<longrightarrow>
               (\<exists>s1. PI_run s0 = Some (Inr s1) \<and> 0 < iter s1 \<and> iter s1 \<le> maxit \<and>
                  (\<exists>pn. candidate s1 pn \<and>
                     (n_different pn (policy s1) = 0 \<or> iter s1 = maxit)))) \<and>
            (B' \<noteq> length succ_s - 1 \<and> B' \<noteq> 1 \<longrightarrow> PI_run s0 = Some (Inl ValueError)))"
proof (intro conjI allI impI)
  assume B: "B = A st - 1 \<or> B = 1"
  from pi_loop_run[OF assms(1) B assms(2)]
  show "\<exists>st'. PI_run st = Some (Inr st') \<and> same_model st st' \<and>
               iter st < iter st' \<and> iter st' \<le> max_iter st \<and>
               (\<exists>pn. candidate st' pn \<and>
                  (n_different pn (policy st') = 0 \<or> iter st' = max_iter st))"
    by (simp add: PI_run_def)
  show "\<exists>st2 pn Rp Ps Pp k.
               evalPolicyIterative (st\<lparr>iter := iter st + 1\<rparr>) None (1 / 10000) 100 = Some (Inr st2) \<and>
               computePpolicyPRpolicy (st\<lparr>iter := iter st + 1\<rparr>) = Inr (Rp, Ps, Pp) \<and>
               1 \<le> k \<and> k \<le> 100 \<and>
               backups (st\<lparr>iter := iter st + 1\<rparr>) Rp Ps Pp k (replicate (states st) 0) =
                 Inr (V st2) \<and>
               iter st2 = iter st + 1 \<and> policy st2 = policy st \<and>
               candidate st2 pn \<and> pi_ok B (st2\<lparr>policy := pn\<rparr>) \<and>
               PI_run st =
                 (if n_different pn (policy st) = 0 \<or> iter st + 1 = max_iter st
                  then Some (Inr st2) else PI_run (st2\<lparr>policy := pn\<rparr>))"
    by (rule pi_loop_step_turns[OF assms(1) B])
next
  assume B: "B \<noteq> A st - 1 \<and> B \<noteq> 1"
  show "eval_start (st\<lparr>iter := iter st + 1\<rparr>) None = Inl ValueError"
    using eval_start_fail[OF assms(1)] B by simp
  show "PI_run st = Some (Inl ValueError)"
    unfolding PI_run_def using pi_loop_fail[OF assms(1)] B by simp
next
  fix s pn pn' assume "candidate s pn \<and> candidate s pn'"
  then show "pn = pn'" using candidate_unique by blast
next
  fix s :: mdp assume "iter s < max_iter s"
  then show "\<exists>r. PI_run s = Some r"
    unfolding PI_run_def by (rule pi_loop_terminates)
next
  fix s s' :: mdp assume lt: "iter s < max_iter s" and a: "PI_run s = Some (Inr s')"
  from pi_loop_exit_aux[OF a[unfolded PI_run_def]] lt
  show "iter s < iter s'" "iter s' \<le> max_iter s" by simp_all
next
  fix s V0 eps
  show "\<exists>r. evalPolicyIterative s V0 eps 100 = Some r"
    by (rule evalPolicyIterative_terminates)
next
  fix s Rp Ps Pp eps v itr v'
  assume "eval_loop s Rp Ps Pp eps 100 0 v = Some (Inr (itr, v'))"
  then show "1 \<le> itr" "itr \<le> 100" using eval_loop_count by blast+
next
  fix succ_s probability_s r n disc eps p0 maxit s0 B'
  assume a: "PI_init succ_s probability_s r n disc eps p0 maxit = Inr s0 \<and>
            valid_tables n B' succ_s probability_s \<and>
            (case p0 of None \<Rightarrow> True
             | Some p \<Rightarrow> length p = n \<and> list_all (\<lambda>x. x < real (length succ_s)) p)"
  then have i: "PI_init succ_s probability_s r n disc eps p0 maxit = Inr s0" by simp
  show ok: "pi_ok B' s0" using PI_init_pi_ok[OF i] a by blast
  show A0: "A s0 = length succ_s" using PI_init_R[OF i] by simp
  show it: "iter s0 = 0" "max_iter s0 = maxit" "0 < maxit"
    using PI_init_iter[OF i] by simp_all
  have lt: "iter s0 < max_iter s0" using it by simp
  {
    assume B: "B' = length succ_s - 1 \<or> B' = 1"
    then have "B' = A s0 - 1 \<or> B' = 1" using A0 by simp
    from pi_loop_run[OF ok this lt]
    show "\<exists>s1. PI_run s0 = Some (Inr s1) \<and> 0 < iter s1 \<and> iter s1 \<le> maxit \<and>
                  (\<exists>pn. candidate s1 pn \<and>
                     (n_different pn (policy s1) = 0 \<or> iter s1 = maxit))"
      using it by (auto simp: PI_run_def)
  }
  {
    assume "B' \<noteq> length succ_s - 1 \<and> B' \<noteq> 1"
    then show "PI_run s0 = Some (Inl ValueError)"
      unfolding PI_run_def using pi_loop_fail[OF ok] A0 by simp
  }
qed

lemma ex_tenth_iter: "iter ex_tenth + 1 = 1"
  by (simp add: ex_tenth_def)

lemma PI_run_ex_tenth:
  "PI_run ex_tenth = Some (Inr (ex_tenth\<lparr>iter := 1, V := [11111 / 2000]\<rparr>))"
  unfolding PI_run_def
  apply (subst pi_loop.simps)
  apply (simp add: ex_tenth_iter eval_ex_tenth)
  apply (simp add: ex_tenth_def pi_eval_defs eval_defs)
  done

lemma PI_init_ex_two:
  "PI_init [[0, 1], [1, 0]] [[1, 1], [1, 1]] [0, 1] 2 (1 / 10) (1 / 100) None 10 = Inr ex_two"
  by (simp add: ex_two_def pi_eval_defs eval_defs)

lemma ex_two_ok: "pi_ok 1 ex_two"
  unfolding pi_ok_def solver_ok_def ex_two_def
  by (simp add: less_Suc_eq numeral_2_eq_2 all_conj_distrib)

lemma eval_ex_two_first:
  "evalPolicyIterative (ex_two\<lparr>iter := 1\<rparr>) None (1 / 10000) 100 =
     Some (Inr (ex_two\<lparr>iter := 1, V := [0, 11111 / 10000]\<rparr>))"
  unfolding evalPolicyIterative_def
  apply (simp add: ex_two_def pi_eval_defs eval_defs)
  apply (subst eval_loop.simps, simp add: ex_two_def pi_eval_defs eval_defs)
  apply (subst eval_loop.simps, simp add: ex_two_def pi_eval_defs eval_defs)
  apply (subst eval_loop.simps, simp add: ex_two_def pi_eval_defs eval_defs)
  apply (subst eval_loop.simps, simp add: ex_two_def pi_eval_defs eval_defs)
  apply (subst eval_loop.simps, simp add: ex_two_def pi_eval_defs eval_defs)
  done

lemma improve_ex_two_first:
  "improve (ex_two\<lparr>iter := 1, V := [0, 11111 / 10000]\<rparr>) = Inr ([1, 0], 1)"
  by (simp add: ex_two_def pi_eval_defs eval_defs)

lemma eval_ex_two_second:
  "evalPolicyIterative (ex_two\<lparr>iter := 2, V := [0, 11111 / 10000], policy := [1, 0]\<rparr>)
       None (1 / 10000) 100 =
     Some (Inr (ex_two\<lparr>iter := 2, V := [1111 / 10000, 11111 / 10000], policy := [1, 0]\<rparr>))"
  unfolding evalPolicyIterative_def
  apply (simp add: ex_two_def pi_eval_defs eval_defs)
  apply (subst eval_loop.simps, simp add: ex_two_def pi_eval_defs eval_defs)
  apply (subst eval_loop.simps, simp add: ex_two_def pi_eval_defs eval_defs)
  apply (subst eval_loop.simps, simp add: ex_two_def pi_eval_defs eval_defs)
  apply (subst eval_loop.simps, simp add: ex_two_def pi_eval_defs eval_defs)
  apply (subst eval_loop.simps, simp add: ex_two_def pi_eval_defs eval_defs)
  done

lemma improve_ex_two_second:
  "improve (ex_two\<lparr>iter := 2, V := [1111 / 10000, 11111 / 10000], policy := [1, 0]\<rparr>) =
     Inr ([1, 0], 0)"
  by (simp add: ex_two_def pi_eval_defs eval_defs)

lemma PI_run_ex_two:
  "PI_run ex_two =
     Some (Inr (ex_two\<lparr>iter := 2, V := [1111 / 10000, 11111 / 10000], policy := [1, 0]\<rparr>))"
proof -
  have i: "iter ex_two + 1 = 1" "max_iter ex_two = 10" by (simp_all add: ex_two_def)
  have e: "(ex_two\<lparr>iter := 1, V := [0, 11111 / 10000], policy := [1, 0]\<rparr>)
             \<lparr>iter := iter (ex_two\<lparr>iter := 1, V := [0, 11111 / 10000], policy := [1, 0]\<rparr>) + 1\<rparr> =
           ex_two\<lparr>iter := 2, V := [0, 11111 / 10000], policy := [1, 0]\<rparr>"
    by (simp add: ex_two_def)
  have "pi_loop ex_two = pi_loop (ex_two\<lparr>iter := 1, V := [0, 11111 / 10000], policy := [1, 0]\<rparr>)"
    by (subst pi_loop.simps) (simp add: i eval_ex_two_first improve_ex_two_first)
  also have "\<dots> = Some (Inr (ex_two\<lparr>iter := 2, V := [1111 / 10000, 11111 / 10000], policy := [1, 0]\<rparr>))"
    by (subst pi_loop.simps, simp only: e eval_ex_two_second)
      (simp add: improve_ex_two_second)
  finally show ?thesis by (simp add: PI_run_def)
qed

lemma ex_two_capped_ok: "pi_ok 1 (ex_two\<lparr>max_iter := 1\<rparr>)"
  using ex_two_ok by (simp add: pi_ok_def solver_ok_def)

lemma eval_ex_two_capped:
  "evalPolicyIterative (ex_two\<lparr>max_iter := 1, iter := 1\<rparr>) None (1 / 10000) 100 =
     Some (Inr (ex_two\<lparr>max_iter := 1, iter := 1, V := [0, 11111 / 10000]\<rparr>))"
  unfolding evalPolicyIterative_def
  apply (simp add: ex_two_def pi_eval_defs eval_defs)
  apply (subst eval_loop.simps, simp add: ex_two_def pi_eval_defs eval_defs)
  apply (subst eval_loop.simps, simp add: ex_two_def pi_eval_defs eval_defs)
  apply (subst eval_loop.simps, simp add: ex_two_def pi_eval_defs eval_defs)
  apply (subst eval_loop.simps, simp add: ex_two_def pi_eval_defs eval_defs)
  apply (subst eval_loop.simps, simp add: ex_two_def pi_eval_defs eval_defs)
  done

lemma improve_ex_two_capped:
  "improve (ex_two\<lparr>max_iter := 1, iter := 1, V := [0, 11111 / 10000]\<rparr>) = Inr ([1, 0], 1)"
  by (simp add: ex_two_def pi_eval_defs eval_defs)

lemma PI_run_ex_two_capped:
  "PI_run (ex_two\<lparr>max_iter := 1\<rparr>) =
     Some (Inr (ex_two\<lparr>max_iter := 1, iter := 1, V := [0, 11111 / 10000]\<rparr>))"
proof -
  have e: "(ex_two\<lparr>max_iter := 1\<rparr>)\<lparr>iter := iter (ex_two\<lparr>max_iter := 1\<rparr>) + 1\<rparr> =
           ex_two\<lparr>max_iter := 1, iter := 1\<rparr>"
    by (simp add: ex_two_def)
  show ?thesis
    unfolding PI_run_def
    by (subst pi_loop.simps, simp only: e eval_ex_two_capped)
      (simp add: improve_ex_two_capped)
qed

lemma PI_run_ex_wide: "PI_run ex_wide = Some (Inl ValueError)"
  unfolding PI_run_def
  by (rule pi_loop_fail[OF ex_wide_ok]) (simp_all add: ex_wide_def)

theorem PI_run_terminates_witness:
  "PI_init [[0, 1], [1, 0]] [[1, 1], [1, 1]] [0, 1] 2 (1 / 10) (1 / 100) None 10 = Inr ex_two \<and>
   valid_tables 2 1 [[0, 1], [1, 0]] [[1, 1], [1, 1]] \<and>
   pi_ok 1 ex_two \<and> iter ex_two = 0 \<and> max_iter ex_two = 10 \<and>
   evalPolicyIterative (ex_two\<lparr>iter := 1\<rparr>) None (1 / 10000) 100 =
     Some (Inr (ex_two\<lparr>iter := 1, V := [0, 11111 / 10000]\<rparr>)) \<and>
   candidate (ex_two\<lparr>iter := 1, V := [0, 11111 / 10000]\<rparr>) [1, 0] \<and>
   n_different [1, 0] (policy ex_two) = 1 \<and>
   PI_run ex_two = PI_run (ex_two\<lparr>iter := 1, V := [0, 11111 / 10000], policy := [1, 0]\<rparr>) \<and>
   PI_run ex_two =
     Some (Inr (ex_two\<lparr>iter := 2, V := [1111 / 10000, 11111 / 10000], policy := [1, 0]\<rparr>)) \<and>
   candidate (ex_two\<lparr>iter := 2, V := [1111 / 10000, 11111 / 10000], policy := [1, 0]\<rparr>) [1, 0] \<and>
   n_different [1, 0] [1, 0] = 0 \<and>
   pi_ok 1 (ex_two\<lparr>max_iter := 1\<rparr>) \<and>
   PI_run (ex_two\<lparr>max_iter := 1\<rparr>) =
     Some (Inr (ex_two\<lparr>max_iter := 1, iter := 1, V := [0, 11111 / 10000]\<rparr>)) \<and>
   candidate (ex_two\<lparr>max_iter := 1, iter := 1, V := [0, 11111 / 10000]\<rparr>) [1, 0] \<and>
   n_different [1, 0] (policy (ex_two\<lparr>max_iter := 1, iter := 1, V := [0, 11111 / 10000]\<rparr>)) = 1 \<and>
   iter (ex_two\<lparr>max_iter := 1, iter := 1, V := [0, 11111 / 10000]\<rparr>) =
     max_iter (ex_two\<lparr>max_iter := 1\<rparr>)"
proof -
  let ?mid = "ex_two\<lparr>iter := 1, V := [0, 11111 / 10000]\<rparr>"
  let ?fin = "ex_two\<lparr>iter := 2, V := [1111 / 10000, 11111 / 10000], policy := [1, 0]\<rparr>"
  have lt: "iter ex_two < max_iter ex_two" and i: "iter ex_two = 0" "max_iter ex_two = 10"
    and B: "(1 :: nat) = A ex_two - 1 \<or> (1 :: nat) = 1"
    and i1: "ex_two\<lparr>iter := iter ex_two + 1\<rparr> = ex_two\<lparr>iter := 1\<rparr>"
    by (simp_all add: ex_two_def)
  have vt: "valid_tables 2 1 [[0, 1], [1, 0]] [[1, 1], [1, 1]]" by (simp add: valid_tables_def)
  note t = PI_run_terminates[OF ex_two_ok lt]
  note t1 = t[THEN conjunct1, rule_format, OF B]
  from t1[THEN conjunct1] obtain st' pn where
    r: "PI_run ex_two = Some (Inr st')" and c: "candidate st' pn"
    and e: "n_different pn (policy st') = 0 \<or> iter st' = max_iter ex_two"
    by blast
  from r PI_run_ex_two have st': "st' = ?fin" by simp
  have "iter ?fin \<noteq> max_iter ex_two" by (simp add: ex_two_def)
  with e st' have nd: "n_different pn (policy ?fin) = 0" by simp
  have "length pn = length (policy ?fin)" using c st' by (simp add: candidate_def ex_two_def)
  with nd have "pn = policy ?fin" by (simp add: n_different_zero)
  then have pn: "pn = [1, 0]" by simp
  have cf: "candidate ?fin [1, 0]" using c st' pn by simp
  from t1[THEN conjunct2] obtain st2 qn where
    ev: "evalPolicyIterative (ex_two\<lparr>iter := iter ex_two + 1\<rparr>) None (1 / 10000) 100 = Some (Inr st2)"
    and c2: "candidate st2 qn"
    and law: "PI_run ex_two =
                 (if n_different qn (policy ex_two) = 0 \<or> iter ex_two + 1 = max_iter ex_two
                  then Some (Inr st2) else PI_run (st2\<lparr>policy := qn\<rparr>))"
    by blast
  from ev eval_ex_two_first have st2: "st2 = ?mid" by (simp add: i1)
  have okm: "solver_ok ?mid" "length (V ?mid) = states ?mid" "length (policy ?mid) = states ?mid"
    using ex_two_ok by (simp_all add: pi_ok_def solver_ok_def, simp_all add: ex_two_def)
  from improve_spec[OF okm] improve_ex_two_first have "candidate ?mid [1, 0]" by auto
  with c2 st2 have qn: "qn = [1, 0]" by (simp add: candidate_unique)
  have n1: "n_different [1, 0] (policy ex_two) = 1" by (simp add: n_different_def ex_two_def)
  have n0: "n_different [1, 0] [1, 0] = 0" by (simp add: n_different_def)
  from law have step: "PI_run ex_two = PI_run (?mid\<lparr>policy := [1, 0]\<rparr>)"
    unfolding st2 qn n1 by (simp add: i)
  have cm: "candidate ?mid [1, 0]" using c2 st2 qn by simp
  let ?cap = "ex_two\<lparr>max_iter := 1, iter := 1, V := [0, 11111 / 10000]\<rparr>"
  have ltc: "iter (ex_two\<lparr>max_iter := 1\<rparr>) < max_iter (ex_two\<lparr>max_iter := 1\<rparr>)"
    and Bc: "(1 :: nat) = A (ex_two\<lparr>max_iter := 1\<rparr>) - 1 \<or> (1 :: nat) = 1"
    by (simp_all add: ex_two_def)
  note u = PI_run_terminates[OF ex_two_capped_ok ltc, THEN conjunct1, rule_format, OF Bc]
  from u[THEN conjunct1] obtain sc pc where
    rc: "PI_run (ex_two\<lparr>max_iter := 1\<rparr>) = Some (Inr sc)" and cc: "candidate sc pc"
    and ec: "n_different pc (policy sc) = 0 \<or> iter sc = max_iter (ex_two\<lparr>max_iter := 1\<rparr>)"
    by blast
  from rc PI_run_ex_two_capped have sc: "sc = ?cap" by simp
  have okc: "solver_ok ?cap" "length (V ?cap) = states ?cap" "length (policy ?cap) = states ?cap"
    using ex_two_ok by (simp_all add: pi_ok_def solver_ok_def, simp_all add: ex_two_def)
  from improve_spec[OF okc] improve_ex_two_capped have "candidate ?cap [1, 0]" by auto
  with cc sc have pc: "pc = [1, 0]" by (simp add: candidate_unique)
  have nc: "n_different [1, 0] (policy ?cap) = 1" by (simp add: n_different_def ex_two_def)
  from ec have "iter ?cap = max_iter (ex_two\<lparr>max_iter := 1\<rparr>)"
    unfolding sc pc nc by simp
  moreover have "candidate ?cap [1, 0]" using cc sc pc by simp
  ultimately show ?thesis
    using PI_init_ex_two vt ex_two_ok i eval_ex_two_first cm n1 step PI_run_ex_two cf n0
      ex_two_capped_ok PI_run_ex_two_capped nc
    by simp
qed

text \<open>
  The claim as stated lets every run on a valid input end with an unchanged policy or
  at the cap. On valid tables with three states, two actions and two successors per
  state and action the constructor returns and the run raises \<^verbatim>\<open>ValueError\<close>.
\<close>

theorem PI_run_terminates_counterexample:
  "PI_init [[0, 1, 2, 1, 2, 0], [0, 1, 2, 1, 2, 0]]
     [[1 / 2, 1 / 2, 1 / 2, 1 / 2, 1 / 2, 1 / 2], [1 / 2, 1 / 2, 1 / 2, 1 / 2, 1 / 2, 1 / 2]]
     [1, 2, 3] 3 (1 / 2) (1 / 100) None 10 = Inr ex_wide \<and>
   valid_tables 3 2 [[0, 1, 2, 1, 2, 0], [0, 1, 2, 1, 2, 0]]
     [[1 / 2, 1 / 2, 1 / 2, 1 / 2, 1 / 2, 1 / 2], [1 / 2, 1 / 2, 1 / 2, 1 / 2, 1 / 2, 1 / 2]] \<and>
   iter ex_wide = 0 \<and> max_iter ex_wide = 10 \<and>
   PI_run ex_wide = Some (Inl ValueError)"
  using PI_init_ex_wide PI_run_ex_wide by (simp add: valid_tables_def ex_wide_def)

lemma vi_loop_ex_chain:
  "VI_run ex_chain = Some (Inr (ex_chain\<lparr>iter := 1, policy := [0, 0, 0], V := [1, 0, 3 / 2]\<rparr>))"
  unfolding VI_run_def
  by (subst vi_loop.simps) (simp add: ex_chain_def eval_defs)

theorem solver_output_shape_witness:
  "PI_init [[0], [0]] [[1], [1]] [5] 1 (1 / 10) (1 / 100) None 10 = Inr ex_tenth \<and>
   PI_init [[0], [0]] [[1], [1]] [5] 1 (1 / 10) (1 / 100) (Some [0]) 10 = Inr ex_tenth \<and>
   PI_run ex_tenth = Some (Inr (ex_tenth\<lparr>iter := 1, V := [11111 / 2000]\<rparr>)) \<and>
   output_ok (ex_tenth\<lparr>iter := 1, V := [11111 / 2000]\<rparr>) \<and>
   GS_init [[0, 0, 2], [0, 2, 2]] [[1, 1, 1], [1, 1, 1]] [1, 0, 3 / 2] 3 1 (1 / 100) 1 None = Inr ex_chain \<and>
   GS_run ex_chain = Some (Inr (ex_chain\<lparr>iter := 1, V := [2, 2, 3], policy := [0, 0, 0]\<rparr>)) \<and>
   output_ok (ex_chain\<lparr>iter := 1, V := [2, 2, 3], policy := [0, 0, 0]\<rparr>) \<and>
   VI_run ex_chain = Some (Inr (ex_chain\<lparr>iter := 1, policy := [0, 0, 0], V := [1, 0, 3 / 2]\<rparr>)) \<and>
   output_ok (ex_chain\<lparr>iter := 1, policy := [0, 0, 0], V := [1, 0, 3 / 2]\<rparr>)"
proof -
  have p: "case None :: real list option of None \<Rightarrow> True
           | Some p \<Rightarrow> length p = 1 \<and> list_all (\<lambda>x. x < real (length [[0 :: int], [0]])) p"
    by simp
  from solver_output_shape[of "[[0], [0]]" "[[1], [1]]" "[5]" 1 "1 / 10" "1 / 100" None 10
      ex_tenth "ex_tenth\<lparr>iter := 1, V := [11111 / 2000]\<rparr>"]
    PI_init_ex_tenth PI_run_ex_tenth p
  have 1: "output_ok (ex_tenth\<lparr>iter := 1, V := [11111 / 2000]\<rparr>)" by blast
  have i0: "PI_init [[0], [0]] [[1], [1]] [5] 1 (1 / 10) (1 / 100) (Some [0]) 10 = Inr ex_tenth"
    by (simp add: ex_tenth_def pi_eval_defs eval_defs)
  have p0: "case Some [0 :: real] of None \<Rightarrow> True
           | Some p \<Rightarrow> length p = 1 \<and> list_all (\<lambda>x. x < real (length [[0 :: int], [0]])) p"
    by simp
  from solver_output_shape[of "[[0], [0]]" "[[1], [1]]" "[5]" 1 "1 / 10" "1 / 100" "Some [0]" 10
      ex_tenth "ex_tenth\<lparr>iter := 1, V := [11111 / 2000]\<rparr>"]
    i0 PI_run_ex_tenth p0
  have 0: "output_ok (ex_tenth\<lparr>iter := 1, V := [11111 / 2000]\<rparr>)" by blast
  from solver_output_shape[of "[[0, 0, 2], [0, 2, 2]]" "[[1, 1, 1], [1, 1, 1]]" "[1, 0, 3 / 2]" 3 1
      "1 / 100" None 1 _ _ None ex_chain
      "ex_chain\<lparr>iter := 1, V := [2, 2, 3], policy := [0, 0, 0]\<rparr>"]
    GS_init_ex_chain GS_run_ex_chain
  have 2: "output_ok (ex_chain\<lparr>iter := 1, V := [2, 2, 3], policy := [0, 0, 0]\<rparr>)" by blast
  from solver_output_shape[where vi = ex_chain
      and vi' = "ex_chain\<lparr>iter := 1, policy := [0, 0, 0], V := [1, 0, 3 / 2]\<rparr>"]
    vi_loop_ex_chain
  have 3: "output_ok (ex_chain\<lparr>iter := 1, policy := [0, 0, 0], V := [1, 0, 3 / 2]\<rparr>)" by blast
  show ?thesis
    using 0 2 3 i0 PI_init_ex_tenth PI_run_ex_tenth GS_init_ex_chain GS_run_ex_chain
      vi_loop_ex_chain
    by blast
qed

end
